theory Spec2Isabelle
  imports Complex_Main "HOL-Library.AList"
begin

section \<open>Constants and machine arithmetic\<close>

text \<open>
  The header fixes the geometry of the arena. \<open>size_t\<close> is modelled as a natural number
  below \<open>2 ^ 64\<close>; every addition and subtraction the source performs on \<open>size_t\<close> is
  written with \<open>size_add\<close> and \<open>size_sub\<close>, which wrap around as the machine does.
\<close>

definition CACHE_SIZE :: nat where
  "CACHE_SIZE = 100 * 1024 * 1024"

definition PAGE_SIZE :: nat where
  "PAGE_SIZE = 40 * 1024"

definition TOTAL_PAGES :: nat where
  "TOTAL_PAGES = CACHE_SIZE div PAGE_SIZE"

definition SIZE_MAX :: nat where
  "SIZE_MAX = 2 ^ 64 - 1"

definition size_add :: "nat \<Rightarrow> nat \<Rightarrow> nat" where
  "size_add a b = (a + b) mod 2 ^ 64"

definition size_sub :: "nat \<Rightarrow> nat \<Rightarrow> nat" where
  "size_sub a b = (a + 2 ^ 64 - b) mod 2 ^ 64"

section \<open>Data model\<close>

text \<open>
  A \<open>FreeBlock\<close> node carries a start page and a page count; its \<open>next\<close> and \<open>prev\<close>
  pointers are the list structure of \<open>free_list_head\<close>, and a pointer to a node is the
  position of the node in that list.
\<close>

record FreeBlock =
  start_page :: nat
  num_pages :: nat

text \<open>
  A page holds \<open>PAGE_SIZE\<close> bytes, addressed by their offset, the free flag and the first
  page of the run the page belongs to.
\<close>

record Page =
  data :: "nat \<Rightarrow> char"
  is_free :: bool
  block_start :: nat

text \<open>
  The LRU iterator of an entry is an opaque handle; \<open>None\<close> is the default-constructed
  iterator.
\<close>

record CacheEntry =
  key :: string
  client_id :: string
  start_page :: nat
  num_pages :: nat
  data_size :: nat
  lru_iter :: "nat option"
  insertion_order :: nat
  visited :: bool
  reference_bit :: bool
  clock_position :: nat

text \<open>The counters of \<open>CacheStats\<close> that the memory manager itself increments.\<close>

record CacheStats =
  defragmentations :: nat
  coalesces :: nat

text \<open>
  \<open>FragmentationStats\<close> without its \<open>fragmentation_ratio\<close>, a floating-point number
  that is only printed.
\<close>

record FragmentationStats =
  total_free_pages :: nat
  largest_free_block :: nat
  num_free_blocks :: nat

text \<open>
  The part of \<open>CacheServerDefrag\<close> that the memory manager reads and writes. The page
  vector \<open>cache\<close> is a store from page index to page; only the indices below
  \<open>TOTAL_PAGES\<close> exist in the source. The hash table \<open>entries\<close> is an association list
  with unique keys, whose order stands for the unspecified iteration order of the table.
\<close>

record CacheServerDefrag =
  cache :: "nat \<Rightarrow> Page"
  entries :: "(string \<times> CacheEntry) list"
  free_list_head :: "FreeBlock list"
  total_free_pages :: nat
  fifo_counter :: nat
  stats :: CacheStats

text \<open>
  A default-constructed page, and the state that the constructor and a successful
  \<open>initializeCache\<close> leave: every page free, no entry, the whole arena as one free block.
\<close>

definition new_Page :: Page where
  "new_Page = \<lparr>data = (\<lambda>_. CHR 0x00), is_free = True, block_start = 0\<rparr>"

definition initializeCache :: CacheServerDefrag where
  "initializeCache =
     \<lparr>cache = (\<lambda>_. new_Page),
      entries = [],
      free_list_head = [\<lparr>FreeBlock.start_page = 0, num_pages = TOTAL_PAGES\<rparr>],
      total_free_pages = TOTAL_PAGES,
      fifo_counter = 0,
      stats = \<lparr>defragmentations = 0, coalesces = 0\<rparr>\<rparr>"

section \<open>Free-list management\<close>

text \<open>
  The scan of \<open>findBestFitBlock\<close>: \<open>i\<close> is the position of \<open>current\<close>, and the exact-fit
  branch leaves the loop without looking at the rest of the list.
\<close>

fun findBestFitBlock_loop ::
  "FreeBlock list \<Rightarrow> nat \<Rightarrow> nat \<Rightarrow> nat option \<Rightarrow> nat \<Rightarrow> nat option" where
  "findBestFitBlock_loop [] n i best_fit best_size = best_fit"
| "findBestFitBlock_loop (current # rest) n i best_fit best_size =
     (if n \<le> FreeBlock.num_pages current \<and> FreeBlock.num_pages current < best_size then
        (if FreeBlock.num_pages current = n then Some i
         else findBestFitBlock_loop rest n (Suc i) (Some i) (FreeBlock.num_pages current))
      else findBestFitBlock_loop rest n (Suc i) best_fit best_size)"

definition findBestFitBlock :: "CacheServerDefrag \<Rightarrow> nat \<Rightarrow> nat option" where
  "findBestFitBlock st n = findBestFitBlock_loop (free_list_head st) n 0 None SIZE_MAX"

definition remove_nth :: "nat \<Rightarrow> 'a list \<Rightarrow> 'a list" where
  "remove_nth i xs = take i xs @ drop (Suc i) xs"

definition removeFromFreeList :: "CacheServerDefrag \<Rightarrow> nat \<Rightarrow> CacheServerDefrag" where
  "removeFromFreeList st block =
     st\<lparr>free_list_head := remove_nth block (free_list_head st),
        total_free_pages :=
          size_sub (total_free_pages st) (FreeBlock.num_pages (free_list_head st ! block))\<rparr>"

definition splitBlock :: "CacheServerDefrag \<Rightarrow> nat \<Rightarrow> nat \<Rightarrow> CacheServerDefrag" where
  "splitBlock st block n =
     (let b = free_list_head st ! block in
      if FreeBlock.num_pages b = n then removeFromFreeList st block
      else st\<lparr>free_list_head := (free_list_head st)
                [block := \<lparr>FreeBlock.start_page = size_add (FreeBlock.start_page b) n,
                           num_pages = size_sub (FreeBlock.num_pages b) n\<rparr>]\<rparr>)"

text \<open>
  The walk of \<open>addToFreeList\<close> from the head: the number of steps \<open>current\<close> advances
  while a next node exists and starts before the new run.
\<close>

fun find_insertion_point :: "FreeBlock list \<Rightarrow> nat \<Rightarrow> nat" where
  "find_insertion_point (current # nxt # rest) start =
     (if FreeBlock.start_page nxt < start
      then Suc (find_insertion_point (nxt # rest) start) else 0)"
| "find_insertion_point _ start = 0"

definition coalesceAdjacentBlocks :: "CacheServerDefrag \<Rightarrow> nat \<Rightarrow> CacheServerDefrag" where
  "coalesceAdjacentBlocks st block =
     (let fl = free_list_head st;
          fl1 = (if Suc block < length fl \<and>
                    size_add (FreeBlock.start_page (fl ! block)) (FreeBlock.num_pages (fl ! block))
                      = FreeBlock.start_page (fl ! Suc block)
                 then remove_nth (Suc block)
                        (fl[block := (fl ! block)\<lparr>FreeBlock.num_pages :=
                           size_add (FreeBlock.num_pages (fl ! block))
                                    (FreeBlock.num_pages (fl ! Suc block))\<rparr>])
                 else fl);
          fl2 = (if 0 < block \<and>
                    size_add (FreeBlock.start_page (fl1 ! (block - 1)))
                             (FreeBlock.num_pages (fl1 ! (block - 1)))
                      = FreeBlock.start_page (fl1 ! block)
                 then remove_nth block
                        (fl1[block - 1 := (fl1 ! (block - 1))\<lparr>FreeBlock.num_pages :=
                           size_add (FreeBlock.num_pages (fl1 ! (block - 1)))
                                    (FreeBlock.num_pages (fl1 ! block))\<rparr>])
                 else fl1)
      in st\<lparr>free_list_head := fl2,
            stats := (stats st)\<lparr>coalesces := (coalesces (stats st) + 1) mod 2 ^ 64\<rparr>\<rparr>)"

definition addToFreeList :: "CacheServerDefrag \<Rightarrow> nat \<Rightarrow> nat \<Rightarrow> CacheServerDefrag" where
  "addToFreeList st start n =
     (let fl = free_list_head st;
          new_block = \<lparr>FreeBlock.start_page = start, num_pages = n\<rparr>;
          at_head = (fl = [] \<or> start < FreeBlock.start_page (hd fl));
          current = find_insertion_point fl start;
          fl' = (if at_head then new_block # fl
                 else take (Suc current) fl @ new_block # drop (Suc current) fl);
          block = (if at_head then 0 else Suc current)
      in coalesceAdjacentBlocks
           (st\<lparr>free_list_head := fl',
               total_free_pages := size_add (total_free_pages st) n\<rparr>)
           block)"

section \<open>Page data\<close>

text \<open>
  Modelled from the spec: \<open>readFromPages\<close> and \<open>writeToPages\<close> are declared in the header
  and called by \<open>compactMemory\<close>, but their bodies are not among the sources. The spec gives
  their contract: \<open>read(start_page, data_size)\<close> returns exactly \<open>data_size\<close> bytes
  beginning at \<open>start_page\<close>, and \<open>write(start_page, bytes)\<close> copies \<open>bytes\<close> into the run
  starting at \<open>start_page\<close>; bytes of the last page behind the data keep what they held.
  Byte \<open>k\<close> of a run lies in page \<open>start_page + k div PAGE_SIZE\<close> at offset
  \<open>k mod PAGE_SIZE\<close>.
\<close>

definition readFromPages :: "(nat \<Rightarrow> Page) \<Rightarrow> nat \<Rightarrow> nat \<Rightarrow> string" where
  "readFromPages c start nbytes =
     map (\<lambda>k. data (c (start + k div PAGE_SIZE)) (k mod PAGE_SIZE)) [0..<nbytes]"

definition writeToPages :: "(nat \<Rightarrow> Page) \<Rightarrow> nat \<Rightarrow> string \<Rightarrow> (nat \<Rightarrow> Page)" where
  "writeToPages c start bytes =
     (\<lambda>p. if start \<le> p \<and> (p - start) * PAGE_SIZE < length bytes
          then (c p)\<lparr>data := (\<lambda>off.
                  if off < PAGE_SIZE \<and> (p - start) * PAGE_SIZE + off < length bytes
                  then bytes ! ((p - start) * PAGE_SIZE + off)
                  else data (c p) off)\<rparr>
          else c p)"

text \<open>The two page-marking loops, over the pages \<open>lo\<close> up to but excluding \<open>hi\<close>.\<close>

definition mark_used :: "(nat \<Rightarrow> Page) \<Rightarrow> nat \<Rightarrow> nat \<Rightarrow> nat \<Rightarrow> (nat \<Rightarrow> Page)" where
  "mark_used c lo hi first =
     fold (\<lambda>i c. c(i := (c i)\<lparr>is_free := False, block_start := first\<rparr>)) [lo..<hi] c"

definition mark_free :: "(nat \<Rightarrow> Page) \<Rightarrow> nat \<Rightarrow> nat \<Rightarrow> (nat \<Rightarrow> Page)" where
  "mark_free c lo hi = fold (\<lambda>i c. c(i := (c i)\<lparr>is_free := True\<rparr>)) [lo..<hi] c"

section \<open>Defragmentation\<close>

fun getFragmentationStats_loop ::
  "FreeBlock list \<Rightarrow> FragmentationStats \<Rightarrow> FragmentationStats" where
  "getFragmentationStats_loop [] frag_stats = frag_stats"
| "getFragmentationStats_loop (current # rest) frag_stats =
     getFragmentationStats_loop rest
       (frag_stats\<lparr>num_free_blocks := size_add (num_free_blocks frag_stats) 1,
                   largest_free_block :=
                     (if largest_free_block frag_stats < FreeBlock.num_pages current
                      then FreeBlock.num_pages current
                      else largest_free_block frag_stats)\<rparr>)"

definition getFragmentationStats :: "CacheServerDefrag \<Rightarrow> FragmentationStats" where
  "getFragmentationStats st =
     getFragmentationStats_loop (free_list_head st)
       \<lparr>FragmentationStats.total_free_pages = total_free_pages st,
        largest_free_block = 0, num_free_blocks = 0\<rparr>"

text \<open>
  The relocation loop of \<open>compactMemory\<close> over the sorted copy of the entries;
  \<open>next_free_page\<close> is the cursor. The data of an entry is read completely before it is
  written to its new place.
\<close>

fun compactMemory_loop ::
  "(string \<times> CacheEntry) list \<Rightarrow> nat \<Rightarrow> CacheServerDefrag \<Rightarrow> nat \<times> CacheServerDefrag" where
  "compactMemory_loop [] next_free_page st = (next_free_page, st)"
| "compactMemory_loop ((k, entry) # rest) next_free_page st =
     (let old_start = start_page entry;
          n = num_pages entry;
          st1 = (if old_start \<noteq> next_free_page then
                   (let bytes = readFromPages (cache st) old_start (data_size entry) in
                    st\<lparr>cache := writeToPages (cache st) next_free_page bytes,
                       entries := AList.update k (entry\<lparr>start_page := next_free_page\<rparr>)
                                    (entries st)\<rparr>)
                 else st);
          st2 = st1\<lparr>cache := mark_used (cache st1) next_free_page
                                 (size_add next_free_page n) next_free_page\<rparr>
      in compactMemory_loop rest (size_add next_free_page n) st2)"

text \<open>
  \<open>std::sort\<close> leaves the order of entries with equal \<open>start_page\<close> open; the model sorts
  stably. Entries that occupy disjoint non-empty runs have distinct start pages.
\<close>

definition compactMemory :: "CacheServerDefrag \<Rightarrow> CacheServerDefrag" where
  "compactMemory st =
     (let entries_to_move = sort_key (\<lambda>p. start_page (snd p)) (entries st);
          st0 = st\<lparr>free_list_head := [], total_free_pages := 0\<rparr>;
          (next_free_page, st1) = compactMemory_loop entries_to_move 0 st0
      in if next_free_page < TOTAL_PAGES then
           st1\<lparr>cache := mark_free (cache st1) next_free_page TOTAL_PAGES,
               free_list_head := [\<lparr>FreeBlock.start_page = next_free_page,
                                   num_pages = TOTAL_PAGES - next_free_page\<rparr>],
               total_free_pages := TOTAL_PAGES - next_free_page\<rparr>
         else st1)"

definition defragment :: "CacheServerDefrag \<Rightarrow> nat \<Rightarrow> bool \<times> CacheServerDefrag" where
  "defragment st required_pages =
     (let st1 = st\<lparr>stats := (stats st)\<lparr>defragmentations :=
                    (defragmentations (stats st) + 1) mod 2 ^ 64\<rparr>\<rparr>;
          st2 = compactMemory st1;
          after = getFragmentationStats st2
      in (required_pages \<le> largest_free_block after, st2))"

section \<open>Allocation and release\<close>

definition calculateRequiredPages :: "nat \<Rightarrow> nat" where
  "calculateRequiredPages nbytes = size_sub (size_add nbytes PAGE_SIZE) 1 div PAGE_SIZE"

text \<open>
  The tail of \<open>allocatePages\<close> once a block is at hand: split it, mark the pages, build
  the entry and store it under its key.
\<close>

definition allocatePages_commit ::
  "CacheServerDefrag \<Rightarrow> nat \<Rightarrow> string \<Rightarrow> nat \<Rightarrow> string \<Rightarrow> nat \<Rightarrow> CacheServerDefrag" where
  "allocatePages_commit st block k nbytes client required_pages =
     (let start = FreeBlock.start_page (free_list_head st ! block);
          st1 = splitBlock st block required_pages;
          st2 = st1\<lparr>cache := mark_used (cache st1) start (size_add start required_pages) start\<rparr>;
          entry = \<lparr>key = k, client_id = client, start_page = start,
                   num_pages = required_pages, data_size = nbytes, lru_iter = None,
                   insertion_order = fifo_counter st2, visited = False,
                   reference_bit = False, clock_position = 0\<rparr>
      in st2\<lparr>fifo_counter := size_add (fifo_counter st2) 1,
             entries := AList.update k entry (entries st2)\<rparr>)"

definition allocatePages_retry ::
  "CacheServerDefrag \<Rightarrow> string \<Rightarrow> nat \<Rightarrow> string \<Rightarrow> nat \<Rightarrow> bool \<times> CacheServerDefrag" where
  "allocatePages_retry st k nbytes client required_pages =
     (case findBestFitBlock st required_pages of
        None \<Rightarrow> (False, st)
      | Some block \<Rightarrow> (True, allocatePages_commit st block k nbytes client required_pages))"

text \<open>
  \<open>evict\<close> is declared in the header and its body is not among the sources, so
  \<open>allocatePages\<close> takes it as a parameter: given the required page count and the
  state, it returns its verdict and the state it leaves.
\<close>

definition allocatePages ::
  "(nat \<Rightarrow> CacheServerDefrag \<Rightarrow> bool \<times> CacheServerDefrag) \<Rightarrow>
   CacheServerDefrag \<Rightarrow> string \<Rightarrow> nat \<Rightarrow> string \<Rightarrow> bool \<times> CacheServerDefrag" where
  "allocatePages evict st k nbytes client =
     (let required_pages = calculateRequiredPages nbytes in
      case findBestFitBlock st required_pages of
        Some block \<Rightarrow> (True, allocatePages_commit st block k nbytes client required_pages)
      | None \<Rightarrow>
          if required_pages \<le> total_free_pages st then
            (let (defragmented, st1) = defragment st required_pages in
             if \<not> defragmented then
               (let (evicted, st2) = evict required_pages st1 in
                if \<not> evicted then (False, st2)
                else allocatePages_retry st2 k nbytes client required_pages)
             else allocatePages_retry st1 k nbytes client required_pages)
          else
            (let (evicted, st2) = evict required_pages st in
             if \<not> evicted then (False, st2)
             else allocatePages_retry st2 k nbytes client required_pages))"

definition freePages :: "CacheServerDefrag \<Rightarrow> string \<Rightarrow> CacheServerDefrag" where
  "freePages st k =
     (case map_of (entries st) k of
        None \<Rightarrow> st
      | Some entry \<Rightarrow>
          addToFreeList
            (st\<lparr>cache := mark_free (cache st) (start_page entry)
                           (size_add (start_page entry) (num_pages entry))\<rparr>)
            (start_page entry) (num_pages entry))"

section \<open>Eviction\<close>

text \<open>
  Modelled from the spec: the bodies of \<open>evict\<close> and of the four policy evictors are not
  among the sources. The spec gives the contract of \<open>evict(required)\<close>: it selects and
  removes live entries until \<open>total_free_pages \<ge> required\<close>, or reports failure if no more
  entries are live; under FIFO it repeatedly drops the entry with the smallest
  \<open>insertion_order\<close>, freeing its pages and removing it from the table. The theorems
  about \<open>allocatePages\<close> hold for any evictor; this one serves where a concrete evictor
  is needed.
\<close>

fun evictFIFO_loop ::
  "nat \<Rightarrow> (string \<times> CacheEntry) list \<Rightarrow> CacheServerDefrag \<Rightarrow> bool \<times> CacheServerDefrag" where
  "evictFIFO_loop required [] st = (required \<le> total_free_pages st, st)"
| "evictFIFO_loop required ((k, entry) # victims) st =
     (if required \<le> total_free_pages st then (True, st)
      else (let st1 = freePages st k
            in evictFIFO_loop required victims
                 (st1\<lparr>entries := AList.delete k (entries st1)\<rparr>)))"

definition evictFIFO :: "nat \<Rightarrow> CacheServerDefrag \<Rightarrow> bool \<times> CacheServerDefrag" where
  "evictFIFO required st =
     evictFIFO_loop required (sort_key (\<lambda>p. insertion_order (snd p)) (entries st)) st"

section \<open>Notions of the specification\<close>

text \<open>
  The length of the largest free extent (zero pages when there is none), the pages that
  the free list holds, and the pages that the live entries hold.
\<close>

definition largest_extent :: "FreeBlock list \<Rightarrow> nat" where
  "largest_extent fl = Max (insert 0 (FreeBlock.num_pages ` set fl))"

definition free_list_pages :: "FreeBlock list \<Rightarrow> nat" where
  "free_list_pages fl = sum_list (map FreeBlock.num_pages fl)"

definition live_pages :: "(string \<times> CacheEntry) list \<Rightarrow> nat" where
  "live_pages es = sum_list (map (\<lambda>p. num_pages (snd p)) es)"

text \<open>The page count of an entry is the one computed from its data size.\<close>

definition page_count_ok :: "CacheEntry \<Rightarrow> bool" where
  "page_count_ok e \<longleftrightarrow> num_pages e = calculateRequiredPages (data_size e)"

text \<open>
  The admission sequence in the words of the specification: best fit first; if that
  finds nothing and the free pages suffice, defragment and search again; if there is
  still nothing, or the free pages did not suffice, evict, and search a last time.
\<close>

datatype admission_result = Ok | OutOfCapacity

definition admission_evict ::
  "(nat \<Rightarrow> CacheServerDefrag \<Rightarrow> bool \<times> CacheServerDefrag) \<Rightarrow>
   CacheServerDefrag \<Rightarrow> string \<Rightarrow> nat \<Rightarrow> string \<Rightarrow> nat \<Rightarrow>
   admission_result \<times> CacheServerDefrag" where
  "admission_evict evict st k nbytes client n =
     (case evict n st of
        (False, st') \<Rightarrow> (OutOfCapacity, st')
      | (True, st') \<Rightarrow>
          (case findBestFitBlock st' n of
             Some ext \<Rightarrow> (Ok, allocatePages_commit st' ext k nbytes client n)
           | None \<Rightarrow> (OutOfCapacity, st')))"

definition admission ::
  "(nat \<Rightarrow> CacheServerDefrag \<Rightarrow> bool \<times> CacheServerDefrag) \<Rightarrow>
   CacheServerDefrag \<Rightarrow> string \<Rightarrow> nat \<Rightarrow> string \<Rightarrow>
   admission_result \<times> CacheServerDefrag" where
  "admission evict st k nbytes client =
     (let n = calculateRequiredPages nbytes in
      case findBestFitBlock st n of
        Some ext \<Rightarrow> (Ok, allocatePages_commit st ext k nbytes client n)
      | None \<Rightarrow>
          if n \<le> total_free_pages st then
            (let st1 = snd (defragment st n) in
             case findBestFitBlock st1 n of
               Some ext \<Rightarrow> (Ok, allocatePages_commit st1 ext k nbytes client n)
             | None \<Rightarrow> admission_evict evict st1 k nbytes client n)
          else admission_evict evict st k nbytes client n)"

definition admission_result_of :: "bool \<Rightarrow> admission_result" where
  "admission_result_of ok = (if ok then Ok else OutOfCapacity)"




definition extent_pages :: "FreeBlock \<Rightarrow> nat set" where
  "extent_pages b = {FreeBlock.start_page b ..< FreeBlock.start_page b + FreeBlock.num_pages b}"

definition free_pages :: "FreeBlock list \<Rightarrow> nat set" where
  "free_pages fl = \<Union> (extent_pages ` set fl)"

text \<open>
  The live entries as the data model has them: a live entry holds at least one page, its
  run lies within the arena and its data fits into its pages; keys are unique and the
  runs of two entries share no page.
\<close>

definition entry_in_arena :: "CacheEntry \<Rightarrow> bool" where
  "entry_in_arena e \<longleftrightarrow>
     1 \<le> num_pages e \<and> start_page e + num_pages e \<le> TOTAL_PAGES \<and>
     data_size e \<le> num_pages e * PAGE_SIZE"

definition runs_disjoint :: "CacheEntry \<Rightarrow> CacheEntry \<Rightarrow> bool" where
  "runs_disjoint a b \<longleftrightarrow>
     start_page a + num_pages a \<le> start_page b \<or> start_page b + num_pages b \<le> start_page a"

definition live_entries_ok :: "(string \<times> CacheEntry) list \<Rightarrow> bool" where
  "live_entries_ok es \<longleftrightarrow>
     distinct (map fst es) \<and>
     (\<forall>p \<in> set es. entry_in_arena (snd p)) \<and>
     (\<forall>p \<in> set es. \<forall>q \<in> set es. p \<noteq> q \<longrightarrow> runs_disjoint (snd p) (snd q))"

text \<open>
  Entries in ascending order of their runs, none starting before page \<open>B\<close>: each run
  ends before the next begins.
\<close>

fun ascending_runs :: "nat \<Rightarrow> (string \<times> CacheEntry) list \<Rightarrow> bool" where
  "ascending_runs B [] = True"
| "ascending_runs B (p # r) =
     (B \<le> start_page (snd p) \<and> entry_in_arena (snd p) \<and>
      ascending_runs (start_page (snd p) + num_pages (snd p)) r)"

text \<open>
  The live entries as \<open>allocatePages\<close> can leave them: as above, except that an entry
  may hold no page at all, and only the runs of entries that hold pages are required to
  be disjoint.
\<close>

definition live_entries_placed :: "(string \<times> CacheEntry) list \<Rightarrow> bool" where
  "live_entries_placed es \<longleftrightarrow>
     distinct (map fst es) \<and>
     (\<forall>p \<in> set es. start_page (snd p) + num_pages (snd p) \<le> TOTAL_PAGES \<and>
                     data_size (snd p) \<le> num_pages (snd p) * PAGE_SIZE) \<and>
     (\<forall>p \<in> set es. \<forall>q \<in> set es.
        p \<noteq> q \<longrightarrow> 1 \<le> num_pages (snd p) \<longrightarrow> 1 \<le> num_pages (snd q) \<longrightarrow>
        runs_disjoint (snd p) (snd q))"

section \<open>Sample states\<close>

text \<open>
  The free list of the best-fit scenario: extents \<open>(0,2)\<close>, \<open>(3,5)\<close> and \<open>(9,1)\<close>.
\<close>

definition best_fit_scenario :: CacheServerDefrag where
  "best_fit_scenario =
     initializeCache\<lparr>free_list_head :=
         [\<lparr>FreeBlock.start_page = 0, num_pages = 2\<rparr>,
          \<lparr>FreeBlock.start_page = 3, num_pages = 5\<rparr>,
          \<lparr>FreeBlock.start_page = 9, num_pages = 1\<rparr>],
       total_free_pages := 8\<rparr>"

text \<open>
  A cache whose single entry fills the whole arena, and a fresh cache after one
  allocation of one byte.
\<close>

definition full_cache :: CacheServerDefrag where
  "full_cache = snd (allocatePages evictFIFO initializeCache ''a'' 104857600 ''c'')"


text \<open>
  The defragmentation scenario: entry \<open>B\<close> on pages 4 to 6 between the free extents
  \<open>(0,4)\<close> and \<open>(7,3)\<close>, and an entry \<open>D\<close> that fills the pages from 10 to the end of
  the arena.
\<close>

definition entry_B :: CacheEntry where
  "entry_B = \<lparr>key = ''B'', client_id = ''c'', start_page = 4, num_pages = 3,
              data_size = 3 * PAGE_SIZE, lru_iter = None, insertion_order = 1,
              visited = False, reference_bit = False, clock_position = 0\<rparr>"

definition entry_D :: CacheEntry where
  "entry_D = \<lparr>key = ''D'', client_id = ''c'', start_page = 10, num_pages = 2550,
              data_size = 2550 * PAGE_SIZE, lru_iter = None, insertion_order = 3,
              visited = False, reference_bit = False, clock_position = 0\<rparr>"

definition defragment_scenario :: CacheServerDefrag where
  "defragment_scenario =
     \<lparr>cache = mark_used (mark_used (\<lambda>_. new_Page) 4 7 4) 10 2560 10,
      entries = [(''D'', entry_D), (''B'', entry_B)],
      free_list_head = [\<lparr>FreeBlock.start_page = 0, num_pages = 4\<rparr>,
                        \<lparr>FreeBlock.start_page = 7, num_pages = 3\<rparr>],
      total_free_pages = 7,
      fifo_counter = 4,
      stats = \<lparr>defragmentations = 0, coalesces = 2\<rparr>\<rparr>"



text \<open>
  A value \<open>x\<close> of three pages is added, then a value \<open>z\<close> of zero bytes; then \<open>x\<close> is
  updated to five pages: its pages are freed and allocated anew. Entry \<open>z\<close> then starts at
  page 3, within the run of \<open>x\<close>.
\<close>

definition upward_scenario :: CacheServerDefrag where
  "upward_scenario =
     snd (allocatePages evictFIFO
            (freePages
               (snd (allocatePages evictFIFO
                       (snd (allocatePages evictFIFO initializeCache ''x'' 122880 ''c''))
                       ''z'' 0 ''c''))
               ''x'')
            ''x'' 204800 ''c'')"

section \<open>Arithmetic of the machine model\<close>

lemma size_add_small: "a + b < 2 ^ 64 \<Longrightarrow> size_add a b = a + b"
  by (simp add: size_add_def)

lemma size_sub_small: "b \<le> a \<Longrightarrow> a < 2 ^ 64 \<Longrightarrow> size_sub a b = a - b"
proof -
  assume le: "b \<le> a" and lt: "a < 2 ^ 64"
  have "(a + 2 ^ 64 - b) mod 2 ^ 64 = ((a - b) + 2 ^ 64) mod 2 ^ 64"
    using le by simp
  also have "\<dots> = (a - b) mod 2 ^ 64"
    by (rule mod_add_self2)
  also have "\<dots> = a - b"
    using lt by simp
  finally show ?thesis by (simp only: size_sub_def)
qed

lemma PAGE_SIZE_pos: "0 < PAGE_SIZE"
  by (simp add: PAGE_SIZE_def)

lemma TOTAL_PAGES_eq: "TOTAL_PAGES = 2560"
  by (simp add: TOTAL_PAGES_def CACHE_SIZE_def PAGE_SIZE_def)

lemma calculateRequiredPages_no_wrap:
  assumes "nbytes + PAGE_SIZE - 1 \<le> SIZE_MAX"
  shows "calculateRequiredPages nbytes = (nbytes + PAGE_SIZE - 1) div PAGE_SIZE"
proof -
  have "size_sub (size_add nbytes PAGE_SIZE) 1 = nbytes + PAGE_SIZE - 1"
  proof (cases "nbytes + PAGE_SIZE < 2 ^ 64")
    case True
    then show ?thesis
      using PAGE_SIZE_pos by (simp add: size_add_small size_sub_small)
  next
    case False
    with assms have "nbytes + PAGE_SIZE = 2 ^ 64"
      by (simp add: SIZE_MAX_def)
    then show ?thesis
      by (simp add: size_add_def size_sub_def)
  qed
  then show ?thesis by (simp add: calculateRequiredPages_def)
qed

lemma ceiling_div_nat:
  assumes "0 < d"
  shows "int ((n + d - 1) div d) = \<lceil>real n / real d\<rceil>"
proof -
  define q where "q = (n + d - 1) div d"
  have le: "n \<le> q * d"
  proof -
    have "n + d - 1 = q * d + (n + d - 1) mod d" by (simp add: q_def)
    moreover have "(n + d - 1) mod d < d" using assms by simp
    ultimately show ?thesis by linarith
  qed
  have lt: "q * d < n + d"
  proof -
    have "q * d \<le> n + d - 1" by (simp add: q_def)
    with assms show ?thesis by linarith
  qed
  have "real n \<le> real q * real d"
    using le by (metis of_nat_le_iff of_nat_mult)
  then have up: "real n / real d \<le> of_int (int q)"
    using assms by (simp add: pos_divide_le_eq)
  have "real q * real d < real n + real d"
    using lt by (metis of_nat_less_iff of_nat_mult of_nat_add)
  then have "(real q - 1) * real d < real n"
    by (simp add: algebra_simps)
  then have low: "of_int (int q) - 1 < real n / real d"
    using assms by (simp add: pos_less_divide_eq)
  from low up have "\<lceil>real n / real d\<rceil> = int q"
    by (rule ceiling_unique)
  then show ?thesis by (simp add: q_def)
qed

section \<open>What the operations do to the entry table\<close>

lemma set_AList_update:
  "p \<in> set (AList.update k v al) \<Longrightarrow> p = (k, v) \<or> p \<in> set al"
  by (induction al) (auto split: if_splits)

lemma compactMemory_loop_entries:
  "p \<in> set (entries (snd (compactMemory_loop es c st))) \<Longrightarrow>
   \<exists>q \<in> set (entries st) \<union> set es.
     fst p = fst q \<and> snd p = (snd q)\<lparr>start_page := start_page (snd p)\<rparr>"
proof (induction es arbitrary: c st)
  case Nil
  then show ?case by auto
next
  case (Cons a rest)
  obtain k e where a: "a = (k, e)" by (cases a)
  define st1 where "st1 = (if start_page e \<noteq> c then
       st\<lparr>cache := writeToPages (cache st) c (readFromPages (cache st) (start_page e) (data_size e)),
          entries := AList.update k (e\<lparr>start_page := c\<rparr>) (entries st)\<rparr>
     else st)"
  define st2 where "st2 = st1\<lparr>cache := mark_used (cache st1) c (size_add c (num_pages e)) c\<rparr>"
  have run: "compactMemory_loop (a # rest) c st = compactMemory_loop rest (size_add c (num_pages e)) st2"
    by (simp add: a st1_def st2_def Let_def)
  from Cons.prems have "p \<in> set (entries (snd (compactMemory_loop rest (size_add c (num_pages e)) st2)))"
    by (simp only: run)
  from Cons.IH[OF this]
  obtain q where q: "q \<in> set (entries st2) \<union> set rest" "fst p = fst q"
      "snd p = (snd q)\<lparr>start_page := start_page (snd p)\<rparr>"
    by blast
  from q(1) consider "q \<in> set rest" | "q \<in> set (entries st)" | "q = (k, e\<lparr>start_page := c\<rparr>)"
    by (auto simp: st2_def st1_def split: if_splits dest: set_AList_update)
  then show ?case
  proof cases
    case 1
    with q show ?thesis by auto
  next
    case 2
    with q show ?thesis by auto
  next
    case 3
    with q have "fst p = fst (k, e)" "snd p = (snd (k, e))\<lparr>start_page := start_page (snd p)\<rparr>"
      by simp_all
    then show ?thesis unfolding a by (meson UnI2 list.set_intros(1))
  qed
qed

lemma compactMemory_entries:
  assumes "p \<in> set (entries (compactMemory st))"
  shows "\<exists>q \<in> set (entries st). fst p = fst q \<and> snd p = (snd q)\<lparr>start_page := start_page (snd p)\<rparr>"
proof -
  define es where "es = sort_key (\<lambda>p. start_page (snd p)) (entries st)"
  define st0 where "st0 = st\<lparr>free_list_head := [], total_free_pages := 0\<rparr>"
  have "entries (compactMemory st) = entries (snd (compactMemory_loop es 0 st0))"
    by (simp add: compactMemory_def es_def st0_def Let_def split: prod.splits)
  with assms have "p \<in> set (entries (snd (compactMemory_loop es 0 st0)))" by simp
  from compactMemory_loop_entries[OF this] show ?thesis
    by (simp add: es_def st0_def)
qed

lemma entries_splitBlock [simp]: "entries (splitBlock st b n) = entries st"
  by (simp add: splitBlock_def removeFromFreeList_def Let_def)

lemma entries_coalesceAdjacentBlocks [simp]: "entries (coalesceAdjacentBlocks st b) = entries st"
  by (simp add: coalesceAdjacentBlocks_def Let_def)

lemma entries_addToFreeList [simp]: "entries (addToFreeList st s n) = entries st"
  by (simp add: addToFreeList_def Let_def)

lemma entries_freePages [simp]: "entries (freePages st k) = entries st"
  by (simp add: freePages_def split: option.splits)

lemma set_AList_delete: "set (AList.delete k al) \<subseteq> set al"
  by (induction al) auto

lemma evictFIFO_loop_entries:
  "set (entries (snd (evictFIFO_loop n victims st))) \<subseteq> set (entries st)"
proof (induction victims arbitrary: st)
  case Nil
  then show ?case by simp
next
  case (Cons a victims)
  obtain k e where a: "a = (k, e)" by (cases a)
  show ?case
  proof (cases "n \<le> total_free_pages st")
    case True
    then show ?thesis by (simp add: a)
  next
    case False
    let ?st1 = "freePages st k"
    have "set (entries (snd (evictFIFO_loop n victims (?st1\<lparr>entries := AList.delete k (entries ?st1)\<rparr>))))
            \<subseteq> set (AList.delete k (entries st))"
      using Cons.IH[of "?st1\<lparr>entries := AList.delete k (entries ?st1)\<rparr>"] by simp
    with False show ?thesis
      using set_AList_delete[of k "entries st"] by (simp add: a Let_def)
  qed
qed

lemma evictFIFO_entries: "set (entries (snd (evictFIFO n st))) \<subseteq> set (entries st)"
  by (simp add: evictFIFO_def evictFIFO_loop_entries)

section \<open>The page-marking loops\<close>

lemma fold_update_range:
  "fold (\<lambda>i c. c(i := f (c i))) [lo..<hi] c j = (if lo \<le> j \<and> j < hi then f (c j) else c j)"
proof (induction hi arbitrary: j)
  case 0
  then show ?case by simp
next
  case (Suc hi)
  show ?case
  proof (cases "lo \<le> hi")
    case True
    then have "fold (\<lambda>i c. c(i := f (c i))) [lo..<Suc hi] c j
        = ((fold (\<lambda>i c. c(i := f (c i))) [lo..<hi] c)
            (hi := f (fold (\<lambda>i c. c(i := f (c i))) [lo..<hi] c hi))) j"
      by simp
    also have "\<dots> = (if lo \<le> j \<and> j < Suc hi then f (c j) else c j)"
      using True by (simp add: Suc.IH)
    finally show ?thesis .
  next
    case False
    then show ?thesis by auto
  qed
qed

lemma mark_free_apply:
  "mark_free c lo hi i = (if lo \<le> i \<and> i < hi then (c i)\<lparr>is_free := True\<rparr> else c i)"
  unfolding mark_free_def
  by (rule fold_update_range[where f = "\<lambda>p. p\<lparr>is_free := True\<rparr>"])

lemma mark_used_apply:
  "mark_used c lo hi first i =
     (if lo \<le> i \<and> i < hi then (c i)\<lparr>is_free := False, block_start := first\<rparr> else c i)"
  unfolding mark_used_def
  by (rule fold_update_range[where f = "\<lambda>p. p\<lparr>is_free := False, block_start := first\<rparr>"])

lemma cache_coalesceAdjacentBlocks [simp]: "cache (coalesceAdjacentBlocks st b) = cache st"
  by (simp add: coalesceAdjacentBlocks_def Let_def)

lemma cache_addToFreeList [simp]: "cache (addToFreeList st s n) = cache st"
  by (simp add: addToFreeList_def Let_def)

section \<open>The free list after compaction\<close>

lemma compactMemory_loop_free_list [simp]:
  "free_list_head (snd (compactMemory_loop es c st)) = free_list_head st"
proof (induction es arbitrary: c st)
  case Nil
  then show ?case by simp
next
  case (Cons a es)
  obtain k e where a: "a = (k, e)" by (cases a)
  show ?case by (simp add: a Let_def Cons.IH)
qed

lemma compactMemory_loop_total_free [simp]:
  "total_free_pages (snd (compactMemory_loop es c st)) = total_free_pages st"
proof (induction es arbitrary: c st)
  case Nil
  then show ?case by simp
next
  case (Cons a es)
  obtain k e where a: "a = (k, e)" by (cases a)
  show ?case by (simp add: a Let_def Cons.IH)
qed

lemma compactMemory_free_list:
  "(free_list_head (compactMemory st) = [] \<and> total_free_pages (compactMemory st) = 0) \<or>
   (\<exists>c < TOTAL_PAGES. free_list_head (compactMemory st)
        = [\<lparr>FreeBlock.start_page = c, num_pages = TOTAL_PAGES - c\<rparr>])"
proof -
  define es where "es = sort_key (\<lambda>p. start_page (snd p)) (entries st)"
  define st0 where "st0 = st\<lparr>free_list_head := [], total_free_pages := 0\<rparr>"
  obtain c st1 where run: "compactMemory_loop es 0 st0 = (c, st1)"
    by (cases "compactMemory_loop es 0 st0")
  have "free_list_head st1 = free_list_head (snd (compactMemory_loop es 0 st0))"
    by (simp add: run)
  also have "\<dots> = []"
    by (simp add: st0_def)
  finally have fl: "free_list_head st1 = []" .
  have "total_free_pages st1 = total_free_pages (snd (compactMemory_loop es 0 st0))"
    by (simp add: run)
  also have "\<dots> = 0"
    by (simp add: st0_def)
  finally have tf: "total_free_pages st1 = 0" .
  from fl tf show ?thesis
    by (auto simp: compactMemory_def Let_def es_def[symmetric] st0_def[symmetric] run)
qed

lemma defragment_verdict_best_fit:
  assumes "1 \<le> n"
  shows "fst (defragment st n) \<longleftrightarrow> findBestFitBlock (snd (defragment st n)) n \<noteq> None"
proof -
  let ?st1 = "st\<lparr>stats := (stats st)\<lparr>defragmentations :=
                    (defragmentations (stats st) + 1) mod 2 ^ 64\<rparr>\<rparr>"
  have snd_eq: "snd (defragment st n) = compactMemory ?st1"
    by (simp add: defragment_def Let_def)
  have fst_eq: "fst (defragment st n)
      = (n \<le> largest_free_block (getFragmentationStats (compactMemory ?st1)))"
    by (simp add: defragment_def Let_def)
  from compactMemory_free_list[of ?st1] show ?thesis
  proof
    assume "free_list_head (compactMemory ?st1) = [] \<and> total_free_pages (compactMemory ?st1) = 0"
    then show ?thesis
      using assms by (simp add: snd_eq fst_eq getFragmentationStats_def findBestFitBlock_def)
  next
    assume "\<exists>c < TOTAL_PAGES. free_list_head (compactMemory ?st1)
        = [\<lparr>FreeBlock.start_page = c, num_pages = TOTAL_PAGES - c\<rparr>]"
    then obtain c where c: "c < TOTAL_PAGES" "free_list_head (compactMemory ?st1)
        = [\<lparr>FreeBlock.start_page = c, num_pages = TOTAL_PAGES - c\<rparr>]" by blast
    have "TOTAL_PAGES - c < SIZE_MAX"
      by (simp add: TOTAL_PAGES_eq SIZE_MAX_def)
    then show ?thesis
      using assms c by (simp add: snd_eq fst_eq getFragmentationStats_def findBestFitBlock_def)
  qed
qed

lemma defragment_empty_free_list:
  assumes "findBestFitBlock (snd (defragment st 0)) 0 = None"
  shows "fst (defragment st 0)" and "total_free_pages (snd (defragment st 0)) = 0"
proof -
  let ?st1 = "st\<lparr>stats := (stats st)\<lparr>defragmentations :=
                    (defragmentations (stats st) + 1) mod 2 ^ 64\<rparr>\<rparr>"
  have snd_eq: "snd (defragment st 0) = compactMemory ?st1"
    by (simp add: defragment_def Let_def)
  show "fst (defragment st 0)"
    by (simp add: defragment_def Let_def)
  from compactMemory_free_list[of ?st1]
  show "total_free_pages (snd (defragment st 0)) = 0"
  proof
    assume "free_list_head (compactMemory ?st1) = [] \<and> total_free_pages (compactMemory ?st1) = 0"
    then show ?thesis by (simp add: snd_eq)
  next
    assume "\<exists>c < TOTAL_PAGES. free_list_head (compactMemory ?st1)
        = [\<lparr>FreeBlock.start_page = c, num_pages = TOTAL_PAGES - c\<rparr>]"
    then obtain c where c: "c < TOTAL_PAGES" "free_list_head (compactMemory ?st1)
        = [\<lparr>FreeBlock.start_page = c, num_pages = TOTAL_PAGES - c\<rparr>]" by blast
    have "TOTAL_PAGES - c < SIZE_MAX"
      by (simp add: TOTAL_PAGES_eq SIZE_MAX_def)
    with c have "findBestFitBlock (compactMemory ?st1) 0 \<noteq> None"
      by (simp add: findBestFitBlock_def)
    with assms show ?thesis by (simp add: snd_eq)
  qed
qed

section \<open>The sample states, evaluated\<close>

lemma full_cache_fields:
  "entries full_cache =
     [(''a'', \<lparr>key = ''a'', client_id = ''c'', start_page = 0, num_pages = 2560,
               data_size = 104857600, lru_iter = None, insertion_order = 0, visited = False,
               reference_bit = False, clock_position = 0\<rparr>)]"
  "free_list_head full_cache = []"
  "total_free_pages full_cache = 0"
  by (simp_all add: full_cache_def allocatePages_def calculateRequiredPages_def findBestFitBlock_def
        initializeCache_def allocatePages_commit_def splitBlock_def removeFromFreeList_def remove_nth_def
        size_add_def size_sub_def PAGE_SIZE_def TOTAL_PAGES_def CACHE_SIZE_def SIZE_MAX_def Let_def)

lemma evictFIFO_idle:
  "n \<le> total_free_pages s \<Longrightarrow> evictFIFO n s = (True, s)"
  by (cases "sort_key (\<lambda>p. insertion_order (snd p)) (entries s)")
     (auto simp: evictFIFO_def)

lemma evict_full_cache:
  "fst (evictFIFO 2561 full_cache) = False"
  "entries (snd (evictFIFO 2561 full_cache)) = []"
  "free_list_head (snd (evictFIFO 2561 full_cache)) = [\<lparr>FreeBlock.start_page = 0, num_pages = 2560\<rparr>]"
  by (simp_all add: evictFIFO_def full_cache_fields freePages_def addToFreeList_def
        coalesceAdjacentBlocks_def size_add_def Let_def)

lemma pages_beyond_arena: "calculateRequiredPages 104898560 = 2561"
  by (simp add: calculateRequiredPages_def size_add_def size_sub_def PAGE_SIZE_def TOTAL_PAGES_def CACHE_SIZE_def)


lemma compact_defragment_scenario:
  "entries (compactMemory defragment_scenario)
     = [(''D'', entry_D\<lparr>start_page := 3\<rparr>), (''B'', entry_B\<lparr>start_page := 0\<rparr>)]"
  "free_list_head (compactMemory defragment_scenario)
     = [\<lparr>FreeBlock.start_page = 2553, num_pages = 7\<rparr>]"
  "total_free_pages (compactMemory defragment_scenario) = 7"
  by (simp_all add: compactMemory_def defragment_scenario_def entry_B_def entry_D_def
        size_add_def TOTAL_PAGES_eq Let_def)

lemma allocate_defragment_scenario:
  "fst (allocatePages evictFIFO defragment_scenario ''K'' 245760 ''c'')"
  "free_list_head (snd (allocatePages evictFIFO defragment_scenario ''K'' 245760 ''c''))
     = [\<lparr>FreeBlock.start_page = 2559, num_pages = 1\<rparr>]"
  "map fst (entries (snd (allocatePages evictFIFO defragment_scenario ''K'' 245760 ''c'')))
     = [''D'', ''B'', ''K'']"
proof -
  have n: "calculateRequiredPages 245760 = 6"
    by (simp add: calculateRequiredPages_def size_add_def size_sub_def PAGE_SIZE_def)
  have none: "findBestFitBlock defragment_scenario 6 = None"
    by (simp add: findBestFitBlock_def defragment_scenario_def)
  define st1 where "st1 = compactMemory (defragment_scenario\<lparr>stats := (stats defragment_scenario)\<lparr>defragmentations :=
                    (defragmentations (stats defragment_scenario) + 1) mod 2 ^ 64\<rparr>\<rparr>)"
  have fl: "free_list_head st1 = [\<lparr>FreeBlock.start_page = 2553, num_pages = 7\<rparr>]"
    and es: "entries st1 = [(''D'', entry_D\<lparr>start_page := 3\<rparr>), (''B'', entry_B\<lparr>start_page := 0\<rparr>)]"
    by (simp_all add: st1_def compactMemory_def defragment_scenario_def entry_B_def entry_D_def
        size_add_def TOTAL_PAGES_eq Let_def)
  have d: "defragment defragment_scenario 6 = (True, st1)"
    unfolding defragment_def Let_def st1_def[symmetric]
    by (simp add: getFragmentationStats_def fl)
  have tf: "6 \<le> total_free_pages defragment_scenario"
    by (simp add: defragment_scenario_def)
  have some: "findBestFitBlock st1 6 = Some 0"
    by (simp add: findBestFitBlock_def fl SIZE_MAX_def)
  have r: "allocatePages evictFIFO defragment_scenario ''K'' 245760 ''c''
         = (True, allocatePages_commit st1 0 ''K'' 245760 ''c'' 6)"
    by (simp add: allocatePages_def n none tf d allocatePages_retry_def some)
  show "fst (allocatePages evictFIFO defragment_scenario ''K'' 245760 ''c'')"
    by (simp add: r)
  show "free_list_head (snd (allocatePages evictFIFO defragment_scenario ''K'' 245760 ''c''))
     = [\<lparr>FreeBlock.start_page = 2559, num_pages = 1\<rparr>]"
    by (simp add: r allocatePages_commit_def splitBlock_def fl size_add_def size_sub_def Let_def)
  show "map fst (entries (snd (allocatePages evictFIFO defragment_scenario ''K'' 245760 ''c'')))
     = [''D'', ''B'', ''K'']"
    by (simp add: r allocatePages_commit_def es Let_def)
qed

section \<open>Reading and writing page data\<close>

lemma length_readFromPages [simp]: "length (readFromPages c s n) = n"
  by (simp add: readFromPages_def)

lemma readFromPages_cong:
  assumes same: "\<And>p. s \<le> p \<Longrightarrow> p < s + m \<Longrightarrow> data (c p) = data (c' p)"
    and fits: "n \<le> m * PAGE_SIZE"
  shows "readFromPages c s n = readFromPages c' s n"
  unfolding readFromPages_def
proof (rule map_cong[OF refl])
  fix k assume "k \<in> set [0..<n]"
  then have "k < m * PAGE_SIZE" using fits by simp
  then have "k div PAGE_SIZE < m"
    using PAGE_SIZE_pos by (simp add: less_mult_imp_div_less)
  then show "data (c (s + k div PAGE_SIZE)) (k mod PAGE_SIZE)
           = data (c' (s + k div PAGE_SIZE)) (k mod PAGE_SIZE)"
    using same[of "s + k div PAGE_SIZE"] by simp
qed

lemma readFromPages_writeToPages:
  "readFromPages (writeToPages c s bytes) s (length bytes) = bytes"
proof (rule nth_equalityI)
  show "length (readFromPages (writeToPages c s bytes) s (length bytes)) = length bytes"
    by simp
next
  fix k assume "k < length (readFromPages (writeToPages c s bytes) s (length bytes))"
  then have k: "k < length bytes" by simp
  define q where "q = k div PAGE_SIZE"
  define r where "r = k mod PAGE_SIZE"
  have c: "q * PAGE_SIZE + r = k" by (simp add: q_def r_def)
  have b: "r < PAGE_SIZE" using PAGE_SIZE_pos by (simp add: r_def)
  have a: "q * PAGE_SIZE < length bytes" using c k by linarith
  have "readFromPages (writeToPages c s bytes) s (length bytes) ! k
          = data (writeToPages c s bytes (s + q)) r"
    using k by (simp add: readFromPages_def q_def r_def)
  also have "\<dots> = bytes ! (q * PAGE_SIZE + r)"
    using a b c k by (simp add: writeToPages_def)
  finally show "readFromPages (writeToPages c s bytes) s (length bytes) ! k = bytes ! k"
    by (simp only: c)
qed

lemma writeToPages_outside:
  assumes "p < s \<or> s + m \<le> p" and "length bytes \<le> m * PAGE_SIZE"
  shows "writeToPages c s bytes p = c p"
proof (cases "p < s")
  case True
  then show ?thesis by (simp add: writeToPages_def)
next
  case False
  with assms have "m \<le> p - s" by simp
  then have "m * PAGE_SIZE \<le> (p - s) * PAGE_SIZE" by (rule mult_le_mono1)
  with assms(2) have "\<not> (p - s) * PAGE_SIZE < length bytes" by linarith
  then show ?thesis by (simp add: writeToPages_def)
qed

lemma data_mark_used [simp]: "data (mark_used c lo hi first p) = data (c p)"
  by (simp add: mark_used_apply)

lemma data_mark_free [simp]: "data (mark_free c lo hi p) = data (c p)"
  by (simp add: mark_free_apply)

section \<open>The relocation loop\<close>

lemma ascending_runs_lower:
  "ascending_runs B es \<Longrightarrow> p \<in> set es \<Longrightarrow> B \<le> start_page (snd p)"
proof (induction es arbitrary: B)
  case Nil
  then show ?case by simp
next
  case (Cons a es)
  show ?case
  proof (cases "p = a")
    case True
    with Cons.prems show ?thesis by simp
  next
    case False
    with Cons.prems have "p \<in> set es" "ascending_runs (start_page (snd a) + num_pages (snd a)) es"
      "B \<le> start_page (snd a)"
      by simp_all
    with Cons.IH[of "start_page (snd a) + num_pages (snd a)"] show ?thesis by simp
  qed
qed

lemma ascending_runs_arena:
  "ascending_runs B es \<Longrightarrow> p \<in> set es \<Longrightarrow> entry_in_arena (snd p)"
  by (induction es arbitrary: B) auto

lemma live_pages_simps [simp]:
  "live_pages [] = 0"
  "live_pages (p # es) = num_pages (snd p) + live_pages es"
  by (simp_all add: live_pages_def)

lemma map_fst_AList_update:
  "map_of al k = Some v \<Longrightarrow> map fst (AList.update k v' al) = map fst al"
  by (induction al) (auto split: if_splits)

lemma map_of_AList_update:
  "map_of (AList.update k v al) k' = (if k' = k then Some v else map_of al k')"
  by (simp add: update_conv')

text \<open>
  The invariant of the loop, for entries in ascending order whose runs begin at or behind
  the cursor: the cursor advances by the pages of the entries, the keys of the table stay,
  entries outside the list are untouched, the entry at position \<open>i\<close> ends up at the
  cursor plus the pages of the entries before it, with its bytes, and the pages below
  the cursor keep their bytes.
\<close>

lemma compactMemory_loop_packs:
  assumes "ascending_runs B es" and "c \<le> B" and "distinct (map fst es)"
    and "\<forall>p \<in> set es. map_of (entries st) (fst p) = Some (snd p)"
  shows "fst (compactMemory_loop es c st) = c + live_pages es \<and>
         map fst (entries (snd (compactMemory_loop es c st))) = map fst (entries st) \<and>
         (\<forall>k. k \<notin> fst ` set es \<longrightarrow>
              map_of (entries (snd (compactMemory_loop es c st))) k = map_of (entries st) k) \<and>
         (\<forall>i < length es.
              map_of (entries (snd (compactMemory_loop es c st))) (fst (es ! i))
                = Some ((snd (es ! i))\<lparr>start_page := c + live_pages (take i es)\<rparr>) \<and>
              readFromPages (cache (snd (compactMemory_loop es c st)))
                  (c + live_pages (take i es)) (data_size (snd (es ! i)))
                = readFromPages (cache st) (start_page (snd (es ! i))) (data_size (snd (es ! i)))) \<and>
         (\<forall>p < c. data (cache (snd (compactMemory_loop es c st)) p) = data (cache st p))"
  using assms
proof (induction es arbitrary: B c st)
  case Nil
  then show ?case by simp
next
  case (Cons a rest)
  obtain k e where a: "a = (k, e)" by (cases a)
  define n where "n = num_pages e"
  define ds where "ds = data_size e"
  define os where "os = start_page e"
  from Cons.prems(1) have B: "B \<le> os" and arena: "entry_in_arena e"
    and asc: "ascending_runs (os + n) rest"
    by (simp_all add: a os_def n_def)
  from arena have n1: "1 \<le> n" and top: "os + n \<le> TOTAL_PAGES" and fits: "ds \<le> n * PAGE_SIZE"
    by (simp_all add: entry_in_arena_def n_def os_def ds_def)
  from Cons.prems(2) B have cos: "c \<le> os" by simp
  from Cons.prems(3) have fresh: "k \<notin> fst ` set rest" and dist: "distinct (map fst rest)"
    by (simp_all add: a)
  from Cons.prems(4) have atk: "map_of (entries st) k = Some e"
    and others: "\<forall>p \<in> set rest. map_of (entries st) (fst p) = Some (snd p)"
    by (simp_all add: a)
  have "c + n < 2 ^ 64" using cos top by (simp add: TOTAL_PAGES_eq)
  then have nowrap: "size_add c n = c + n" by (rule size_add_small)
  define bytes where "bytes = readFromPages (cache st) os ds"
  define st1 where "st1 = (if os \<noteq> c then
       st\<lparr>cache := writeToPages (cache st) c bytes,
          entries := AList.update k (e\<lparr>start_page := c\<rparr>) (entries st)\<rparr>
     else st)"
  define st2 where "st2 = st1\<lparr>cache := mark_used (cache st1) c (c + n) c\<rparr>"
  have run: "compactMemory_loop (a # rest) c st = compactMemory_loop rest (c + n) st2"
    by (simp add: a st1_def st2_def bytes_def n_def[symmetric] ds_def[symmetric]
          os_def[symmetric] nowrap Let_def)
  have len: "length bytes = ds" by (simp add: bytes_def)
  have keys: "map fst (entries st2) = map fst (entries st)"
    using atk by (simp add: st2_def st1_def map_fst_AList_update)
  have same: "e\<lparr>start_page := os\<rparr> = e" by (simp add: os_def)
  have mapk: "map_of (entries st2) k = Some (e\<lparr>start_page := c\<rparr>)"
    using atk same by (auto simp: st2_def st1_def map_of_AList_update)
  have mapo: "map_of (entries st2) k' = map_of (entries st) k'" if "k' \<noteq> k" for k'
    using that by (simp add: st2_def st1_def map_of_AList_update)
  have outside: "data (cache st2 p) = data (cache st p)" if "p < c \<or> c + n \<le> p" for p
    using writeToPages_outside[OF that, of bytes "cache st"] fits len
    by (simp add: st2_def st1_def)
  have landed: "readFromPages (cache st2) c ds = readFromPages (cache st) os ds"
  proof (cases "os = c")
    case True
    have "readFromPages (cache st2) c ds = readFromPages (cache st) c ds"
      by (rule readFromPages_cong[OF _ fits]) (simp add: st2_def st1_def True)
    with True show ?thesis by simp
  next
    case False
    have "readFromPages (cache st2) c ds = readFromPages (writeToPages (cache st) c bytes) c ds"
      by (rule readFromPages_cong[OF _ fits]) (simp add: st2_def st1_def False)
    also have "\<dots> = bytes"
      using readFromPages_writeToPages[of "cache st" c bytes] by (simp add: len)
    finally show ?thesis by (simp add: bytes_def)
  qed
  have others2: "\<forall>p \<in> set rest. map_of (entries st2) (fst p) = Some (snd p)"
  proof
    fix p assume p: "p \<in> set rest"
    with fresh have "fst p \<noteq> k" by auto
    with others p show "map_of (entries st2) (fst p) = Some (snd p)" by (simp add: mapo)
  qed
  have cn: "c + n \<le> os + n" using cos by simp
  note IH = Cons.IH[OF asc cn dist others2]
  let ?fin = "snd (compactMemory_loop rest (c + n) st2)"
  from IH have ih1: "fst (compactMemory_loop rest (c + n) st2) = c + n + live_pages rest"
    and ih2: "map fst (entries ?fin) = map fst (entries st2)"
    and ih3: "\<And>k'. k' \<notin> fst ` set rest \<Longrightarrow> map_of (entries ?fin) k' = map_of (entries st2) k'"
    and ih4: "\<And>i. i < length rest \<Longrightarrow>
              map_of (entries ?fin) (fst (rest ! i))
                = Some ((snd (rest ! i))\<lparr>start_page := c + n + live_pages (take i rest)\<rparr>) \<and>
              readFromPages (cache ?fin) (c + n + live_pages (take i rest)) (data_size (snd (rest ! i)))
                = readFromPages (cache st2) (start_page (snd (rest ! i))) (data_size (snd (rest ! i)))"
    and ih5: "\<And>p. p < c + n \<Longrightarrow> data (cache ?fin p) = data (cache st2 p)"
    by blast+
  have c1: "fst (compactMemory_loop (a # rest) c st) = c + live_pages (a # rest)"
    unfolding run ih1 by (simp add: a n_def)
  have c2: "map fst (entries (snd (compactMemory_loop (a # rest) c st))) = map fst (entries st)"
    unfolding run by (simp add: ih2 keys)
  have c3: "map_of (entries (snd (compactMemory_loop (a # rest) c st))) k' = map_of (entries st) k'"
    if "k' \<notin> fst ` set (a # rest)" for k'
  proof -
    from that have "k' \<noteq> k" "k' \<notin> fst ` set rest" by (simp_all add: a)
    then show ?thesis unfolding run by (simp add: ih3 mapo)
  qed
  have c4: "map_of (entries (snd (compactMemory_loop (a # rest) c st))) (fst ((a # rest) ! i))
                = Some ((snd ((a # rest) ! i))\<lparr>start_page := c + live_pages (take i (a # rest))\<rparr>) \<and>
              readFromPages (cache (snd (compactMemory_loop (a # rest) c st)))
                  (c + live_pages (take i (a # rest))) (data_size (snd ((a # rest) ! i)))
                = readFromPages (cache st) (start_page (snd ((a # rest) ! i)))
                    (data_size (snd ((a # rest) ! i)))"
    if "i < length (a # rest)" for i
  proof (cases i)
    case 0
    have "readFromPages (cache ?fin) c ds = readFromPages (cache st2) c ds"
      by (rule readFromPages_cong[OF _ fits]) (simp add: ih5)
    with landed have "readFromPages (cache ?fin) c ds = readFromPages (cache st) os ds" by simp
    moreover have "map_of (entries ?fin) k = Some (e\<lparr>start_page := c\<rparr>)"
      using ih3[OF fresh] mapk by simp
    ultimately show ?thesis
      unfolding run by (simp add: 0 a ds_def os_def)
  next
    case (Suc j)
    with that have j: "j < length rest" by simp
    let ?q = "rest ! j"
    from j have mem: "?q \<in> set rest" by simp
    from ascending_runs_lower[OF asc mem] have low: "os + n \<le> start_page (snd ?q)" .
    from ascending_runs_arena[OF asc mem]
    have qfits: "data_size (snd ?q) \<le> num_pages (snd ?q) * PAGE_SIZE"
      by (simp add: entry_in_arena_def)
    have "readFromPages (cache st2) (start_page (snd ?q)) (data_size (snd ?q))
        = readFromPages (cache st) (start_page (snd ?q)) (data_size (snd ?q))"
    proof (rule readFromPages_cong[OF _ qfits])
      fix p assume "start_page (snd ?q) \<le> p"
      with low cos have "c + n \<le> p" by simp
      then show "data (cache st2 p) = data (cache st p)" by (simp add: outside)
    qed
    with ih4[OF j] show ?thesis
      unfolding run by (simp add: Suc a n_def add.assoc)
  qed
  have c5: "data (cache (snd (compactMemory_loop (a # rest) c st)) p) = data (cache st p)"
    if "p < c" for p
    using that unfolding run by (simp add: ih5 outside)
  from c1 c2 c3 c4 c5 show ?case by blast
qed

lemma distinct_map_insort_key:
  "distinct (map g (insort_key f x xs)) \<longleftrightarrow> g x \<notin> g ` set xs \<and> distinct (map g xs)"
  by (induction xs) (auto simp: set_insort_key)

lemma distinct_map_sort_key:
  "distinct (map g (sort_key f xs)) \<longleftrightarrow> distinct (map g xs)"
  by (induction xs) (auto simp: distinct_map_insort_key)

lemma live_pages_insort_key:
  "live_pages (insort_key f x xs) = num_pages (snd x) + live_pages xs"
  by (induction xs) auto

lemma live_pages_sort_key: "live_pages (sort_key f xs) = live_pages xs"
  by (induction xs) (auto simp: live_pages_insort_key)

lemma ascending_runs_sorted:
  assumes "sorted (map (\<lambda>p. start_page (snd p)) es)"
    and "distinct es"
    and "\<forall>p \<in> set es. entry_in_arena (snd p)"
    and "\<forall>p \<in> set es. \<forall>q \<in> set es. p \<noteq> q \<longrightarrow> runs_disjoint (snd p) (snd q)"
    and "\<forall>p \<in> set es. B \<le> start_page (snd p)"
  shows "ascending_runs B es"
  using assms
proof (induction es arbitrary: B)
  case Nil
  then show ?case by simp
next
  case (Cons a es)
  have "start_page (snd a) + num_pages (snd a) \<le> start_page (snd q)" if q: "q \<in> set es" for q
  proof -
    from Cons.prems(2) q have "a \<noteq> q" by auto
    with Cons.prems(4) q have "runs_disjoint (snd a) (snd q)" by simp
    moreover from Cons.prems(1) q have "start_page (snd a) \<le> start_page (snd q)" by auto
    moreover from Cons.prems(3) q have "1 \<le> num_pages (snd q)" by (simp add: entry_in_arena_def)
    ultimately show ?thesis by (auto simp: runs_disjoint_def)
  qed
  moreover have "ascending_runs B' es" if "\<forall>p \<in> set es. B' \<le> start_page (snd p)" for B'
    using Cons.prems that by (intro Cons.IH) auto
  ultimately show ?case using Cons.prems by simp
qed

lemma live_entries_ascending:
  assumes "live_entries_ok es"
  shows "ascending_runs 0 (sort_key (\<lambda>p. start_page (snd p)) es)"
proof (rule ascending_runs_sorted)
  show "sorted (map (\<lambda>p. start_page (snd p)) (sort_key (\<lambda>p. start_page (snd p)) es))"
    by (rule sorted_sort_key)
  from assms have "distinct (map fst es)" by (simp add: live_entries_ok_def)
  then have "distinct es" by (simp add: distinct_map)
  then show "distinct (sort_key (\<lambda>p. start_page (snd p)) es)" by simp
  show "\<forall>p \<in> set (sort_key (\<lambda>p. start_page (snd p)) es). entry_in_arena (snd p)"
    using assms by (simp add: live_entries_ok_def)
  show "\<forall>p \<in> set (sort_key (\<lambda>p. start_page (snd p)) es).
          \<forall>q \<in> set (sort_key (\<lambda>p. start_page (snd p)) es).
            p \<noteq> q \<longrightarrow> runs_disjoint (snd p) (snd q)"
    using assms by (simp add: live_entries_ok_def)
  show "\<forall>p \<in> set (sort_key (\<lambda>p. start_page (snd p)) es). 0 \<le> start_page (snd p)"
    by simp
qed

lemma compactMemory_loop_append:
  "compactMemory_loop (xs @ ys) c st
     = compactMemory_loop ys (fst (compactMemory_loop xs c st)) (snd (compactMemory_loop xs c st))"
proof (induction xs arbitrary: c st)
  case Nil
  then show ?case by simp
next
  case (Cons a xs)
  obtain k e where a: "a = (k, e)" by (cases a)
  show ?case by (simp add: a Let_def Cons.IH)
qed

lemma live_entries_table:
  assumes "live_entries_ok es"
  shows "distinct (map fst (sort_key (\<lambda>p. start_page (snd p)) es))"
    and "\<forall>p \<in> set (sort_key (\<lambda>p. start_page (snd p)) es). map_of es (fst p) = Some (snd p)"
  using assms by (simp_all add: live_entries_ok_def distinct_map_sort_key)

lemma compactMemory_packs:
  assumes ok: "live_entries_ok (entries st)"
  shows "map fst (entries (compactMemory st)) = map fst (entries st) \<and>
         (\<forall>k e. map_of (entries st) k = Some e \<longrightarrow>
            (\<exists>e'. map_of (entries (compactMemory st)) k = Some e' \<and>
                  e' = e\<lparr>start_page := start_page e'\<rparr> \<and>
                  readFromPages (cache (compactMemory st)) (start_page e') (data_size e')
                    = readFromPages (cache st) (start_page e) (data_size e))) \<and>
         free_list_head (compactMemory st)
           = (if live_pages (entries st) < TOTAL_PAGES
              then [\<lparr>FreeBlock.start_page = live_pages (entries st),
                     num_pages = TOTAL_PAGES - live_pages (entries st)\<rparr>]
              else []) \<and>
         (\<forall>i < length (entries st).
            map_of (entries (compactMemory st))
                (fst (sort_key (\<lambda>p. start_page (snd p)) (entries st) ! i))
              = Some ((snd (sort_key (\<lambda>p. start_page (snd p)) (entries st) ! i))
                  \<lparr>start_page :=
                     live_pages (take i (sort_key (\<lambda>p. start_page (snd p)) (entries st)))\<rparr>))"
proof -
  define es where "es = sort_key (\<lambda>p. start_page (snd p)) (entries st)"
  define st0 where "st0 = st\<lparr>free_list_head := [], total_free_pages := 0\<rparr>"
  define c where "c = fst (compactMemory_loop es 0 st0)"
  define s1 where "s1 = snd (compactMemory_loop es 0 st0)"
  have asc: "ascending_runs 0 es"
    using live_entries_ascending[OF ok] by (simp add: es_def)
  have dist: "distinct (map fst es)"
    using live_entries_table(1)[OF ok] by (simp add: es_def)
  have tab: "\<forall>p \<in> set es. map_of (entries st0) (fst p) = Some (snd p)"
    using live_entries_table(2)[OF ok] by (simp add: es_def st0_def)
  note packs = compactMemory_loop_packs[OF asc le_refl dist tab, folded c_def s1_def]
  from packs have cval: "c = live_pages (entries st)"
    by (simp add: es_def live_pages_sort_key)
  from packs have keys: "map fst (entries s1) = map fst (entries st)"
    by (simp add: st0_def)
  from packs have each: "\<And>i. i < length es \<Longrightarrow>
        map_of (entries s1) (fst (es ! i)) = Some ((snd (es ! i))\<lparr>start_page := live_pages (take i es)\<rparr>) \<and>
        readFromPages (cache s1) (live_pages (take i es)) (data_size (snd (es ! i)))
          = readFromPages (cache st) (start_page (snd (es ! i))) (data_size (snd (es ! i)))"
    by (simp add: st0_def)
  have run: "compactMemory_loop es 0 st0 = (c, s1)" by (simp add: c_def s1_def)
  have flist: "free_list_head s1 = []"
    by (simp add: s1_def st0_def)
  have cm: "compactMemory st =
      (if c < TOTAL_PAGES then
         s1\<lparr>cache := mark_free (cache s1) c TOTAL_PAGES,
            free_list_head := [\<lparr>FreeBlock.start_page = c, num_pages = TOTAL_PAGES - c\<rparr>],
            total_free_pages := TOTAL_PAGES - c\<rparr>
       else s1)"
    unfolding compactMemory_def Let_def es_def[symmetric] st0_def[symmetric] run by simp
  have ent: "entries (compactMemory st) = entries s1" by (simp add: cm)
  have rd: "readFromPages (cache (compactMemory st)) a b = readFromPages (cache s1) a b" for a b
    by (rule readFromPages_cong[of a b _ _ b]) (simp_all add: cm PAGE_SIZE_def)
  have c1: "map fst (entries (compactMemory st)) = map fst (entries st)"
    by (simp add: ent keys)
  have c2: "\<exists>e'. map_of (entries (compactMemory st)) k = Some e' \<and>
                  e' = e\<lparr>start_page := start_page e'\<rparr> \<and>
                  readFromPages (cache (compactMemory st)) (start_page e') (data_size e')
                    = readFromPages (cache st) (start_page e) (data_size e)"
    if "map_of (entries st) k = Some e" for k e
  proof -
    from that have "(k, e) \<in> set es" by (auto simp: es_def dest: map_of_SomeD)
    then obtain i where i: "i < length es" "es ! i = (k, e)" by (auto simp: in_set_conv_nth)
    from each[OF i(1)] i(2) show ?thesis
      by (simp add: ent rd)
  qed
  have c3: "free_list_head (compactMemory st)
           = (if live_pages (entries st) < TOTAL_PAGES
              then [\<lparr>FreeBlock.start_page = live_pages (entries st),
                     num_pages = TOTAL_PAGES - live_pages (entries st)\<rparr>]
              else [])"
    by (simp add: cm flist cval)
  have c4: "map_of (entries (compactMemory st)) (fst (es ! i))
              = Some ((snd (es ! i))\<lparr>start_page := live_pages (take i es)\<rparr>)"
    if "i < length (entries st)" for i
  proof -
    from that have "i < length es" by (simp add: es_def)
    from each[OF this] show ?thesis by (simp add: ent)
  qed
  from c1 c2 c3 c4 show ?thesis unfolding es_def by blast
qed

lemma defragment_scenario_ok: "live_entries_ok (entries defragment_scenario)"
  by (simp add: live_entries_ok_def defragment_scenario_def entry_B_def entry_D_def
        entry_in_arena_def runs_disjoint_def TOTAL_PAGES_eq)

lemma defragment_scenario_sorted:
  "sort_key (\<lambda>p. start_page (snd p)) (entries defragment_scenario)
     = [(''B'', entry_B), (''D'', entry_D)]"
  by (simp add: defragment_scenario_def entry_B_def entry_D_def)

section \<open>The cursor of the relocation loop\<close>

text \<open>The cursor does not depend on the state, and compaction not on the counters.\<close>

lemma compactMemory_loop_cursor_state:
  "fst (compactMemory_loop es c st) = fst (compactMemory_loop es c st')"
proof (induction es arbitrary: c st st')
  case Nil
  then show ?case by simp
next
  case (Cons a es)
  obtain k e where a: "a = (k, e)" by (cases a)
  show ?case
    unfolding a compactMemory_loop.simps Let_def by (rule Cons.IH)
qed

lemma compactMemory_free_list_cursor:
  "free_list_head (compactMemory st) =
     (if fst (compactMemory_loop (sort_key (\<lambda>p. start_page (snd p)) (entries st)) 0 st) < TOTAL_PAGES
      then [\<lparr>FreeBlock.start_page =
               fst (compactMemory_loop (sort_key (\<lambda>p. start_page (snd p)) (entries st)) 0 st),
             num_pages = TOTAL_PAGES -
               fst (compactMemory_loop (sort_key (\<lambda>p. start_page (snd p)) (entries st)) 0 st)\<rparr>]
      else [])"
proof -
  define es where "es = sort_key (\<lambda>p. start_page (snd p)) (entries st)"
  define st0 where "st0 = st\<lparr>free_list_head := [], total_free_pages := 0\<rparr>"
  obtain c s1 where run: "compactMemory_loop es 0 st0 = (c, s1)"
    by (cases "compactMemory_loop es 0 st0")
  have c: "fst (compactMemory_loop es 0 st) = c"
    using compactMemory_loop_cursor_state[of es 0 st st0] by (simp add: run)
  have "free_list_head s1 = free_list_head (snd (compactMemory_loop es 0 st0))"
    by (simp add: run)
  then have fl: "free_list_head s1 = []" by (simp add: st0_def)
  show ?thesis
    unfolding compactMemory_def Let_def es_def[symmetric] st0_def[symmetric] run c
    by (simp add: fl)
qed

lemma compactMemory_free_list_stats:
  "free_list_head (compactMemory (st\<lparr>stats := x\<rparr>)) = free_list_head (compactMemory st)"
  unfolding compactMemory_free_list_cursor
  using compactMemory_loop_cursor_state[of "sort_key (\<lambda>p. start_page (snd p)) (entries st)" 0
          "st\<lparr>stats := x\<rparr>" st]
  by simp

lemma compactMemory_loop_stats:
  "compactMemory_loop es c (st\<lparr>stats := x\<rparr>)
     = (fst (compactMemory_loop es c st), (snd (compactMemory_loop es c st))\<lparr>stats := x\<rparr>)"
proof (induction es arbitrary: c st)
  case Nil
  then show ?case by simp
next
  case (Cons a es)
  obtain k e where a: "a = (k, e)" by (cases a)
  define st1 where "st1 = (if start_page e \<noteq> c then
       st\<lparr>cache := writeToPages (cache st) c (readFromPages (cache st) (start_page e) (data_size e)),
          entries := AList.update k (e\<lparr>start_page := c\<rparr>) (entries st)\<rparr>
     else st)"
  define st2 where "st2 = st1\<lparr>cache := mark_used (cache st1) c (size_add c (num_pages e)) c\<rparr>"
  have plain: "compactMemory_loop (a # es) c st
                 = compactMemory_loop es (size_add c (num_pages e)) st2"
    by (simp add: a st1_def st2_def Let_def)
  define st1x where "st1x = (if start_page e \<noteq> c then
       (st\<lparr>stats := x\<rparr>)\<lparr>cache := writeToPages (cache (st\<lparr>stats := x\<rparr>)) c
                  (readFromPages (cache (st\<lparr>stats := x\<rparr>)) (start_page e) (data_size e)),
          entries := AList.update k (e\<lparr>start_page := c\<rparr>) (entries (st\<lparr>stats := x\<rparr>))\<rparr>
     else st\<lparr>stats := x\<rparr>)"
  define st2x where "st2x = st1x\<lparr>cache := mark_used (cache st1x) c (size_add c (num_pages e)) c\<rparr>"
  have same: "st2x = st2\<lparr>stats := x\<rparr>"
    by (rule CacheServerDefrag.equality) (simp_all add: st2x_def st1x_def st2_def st1_def)
  have "compactMemory_loop (a # es) c (st\<lparr>stats := x\<rparr>)
                 = compactMemory_loop es (size_add c (num_pages e)) st2x"
    unfolding a compactMemory_loop.simps Let_def st2x_def st1x_def ..
  then have bumped: "compactMemory_loop (a # es) c (st\<lparr>stats := x\<rparr>)
                 = compactMemory_loop es (size_add c (num_pages e)) (st2\<lparr>stats := x\<rparr>)"
    by (simp only: same)
  show ?case unfolding plain bumped by (rule Cons.IH)
qed

lemma compactMemory_stats:
  "compactMemory (st\<lparr>stats := x\<rparr>) = (compactMemory st)\<lparr>stats := x\<rparr>"
proof -
  define es where "es = sort_key (\<lambda>p. start_page (snd p)) (entries st)"
  define st0 where "st0 = st\<lparr>free_list_head := [], total_free_pages := 0\<rparr>"
  obtain c s1 where run: "compactMemory_loop es 0 st0 = (c, s1)"
    by (cases "compactMemory_loop es 0 st0")
  have st0x: "st\<lparr>stats := x, free_list_head := [], total_free_pages := 0\<rparr> = st0\<lparr>stats := x\<rparr>"
    by (simp add: st0_def)
  have runx: "compactMemory_loop es 0 (st0\<lparr>stats := x\<rparr>) = (c, s1\<lparr>stats := x\<rparr>)"
    by (simp add: compactMemory_loop_stats run)
  have a: "compactMemory st =
      (if c < TOTAL_PAGES then
         s1\<lparr>cache := mark_free (cache s1) c TOTAL_PAGES,
            free_list_head := [\<lparr>FreeBlock.start_page = c, num_pages = TOTAL_PAGES - c\<rparr>],
            total_free_pages := TOTAL_PAGES - c\<rparr>
       else s1)"
    unfolding compactMemory_def Let_def es_def[symmetric] st0_def[symmetric] run by simp
  have "entries (st\<lparr>stats := x\<rparr>) = entries st" by simp
  then have b: "compactMemory (st\<lparr>stats := x\<rparr>) =
      (if c < TOTAL_PAGES then
         (s1\<lparr>stats := x\<rparr>)\<lparr>cache := mark_free (cache (s1\<lparr>stats := x\<rparr>)) c TOTAL_PAGES,
            free_list_head := [\<lparr>FreeBlock.start_page = c, num_pages = TOTAL_PAGES - c\<rparr>],
            total_free_pages := TOTAL_PAGES - c\<rparr>
       else s1\<lparr>stats := x\<rparr>)"
    unfolding compactMemory_def Let_def by (simp only: es_def[symmetric] st0x runx) simp
  show ?thesis unfolding a b by simp
qed

lemma largest_extent_simps [simp]:
  "largest_extent [] = 0"
  "largest_extent [b] = FreeBlock.num_pages b"
  by (simp_all add: largest_extent_def)

text \<open>
  Sorted entries whose runs, where they hold pages, are disjoint and end at or before
  page \<open>S\<close> hold at most \<open>S\<close> pages together.
\<close>

lemma live_pages_append [simp]: "live_pages (xs @ ys) = live_pages xs + live_pages ys"
  by (simp add: live_pages_def)

lemma live_pages_below:
  assumes "sorted (map (\<lambda>p. start_page (snd p)) es)"
    and "distinct es"
    and "\<forall>p \<in> set es. \<forall>q \<in> set es.
        p \<noteq> q \<longrightarrow> 1 \<le> num_pages (snd p) \<longrightarrow> 1 \<le> num_pages (snd q) \<longrightarrow>
        runs_disjoint (snd p) (snd q)"
    and "\<forall>p \<in> set es. 1 \<le> num_pages (snd p) \<longrightarrow> start_page (snd p) + num_pages (snd p) \<le> S"
  shows "live_pages es \<le> S"
  using assms
proof (induction es arbitrary: S rule: rev_induct)
  case Nil
  then show ?case by simp
next
  case (snoc x xs)
  from snoc.prems(1) have sorted_xs: "sorted (map (\<lambda>p. start_page (snd p)) xs)"
    and before: "\<forall>p \<in> set xs. start_page (snd p) \<le> start_page (snd x)"
    by (auto simp: sorted_append)
  from snoc.prems(2) have dist_xs: "distinct xs" and fresh: "x \<notin> set xs" by simp_all
  from snoc.prems(3) have dj_xs: "\<forall>p \<in> set xs. \<forall>q \<in> set xs.
        p \<noteq> q \<longrightarrow> 1 \<le> num_pages (snd p) \<longrightarrow> 1 \<le> num_pages (snd q) \<longrightarrow>
        runs_disjoint (snd p) (snd q)"
    by simp
  show ?case
  proof (cases "num_pages (snd x) = 0")
    case True
    from snoc.prems(4) have "\<forall>p \<in> set xs. 1 \<le> num_pages (snd p) \<longrightarrow>
        start_page (snd p) + num_pages (snd p) \<le> S" by simp
    from snoc.IH[OF sorted_xs dist_xs dj_xs this] True show ?thesis by simp
  next
    case False
    then have x1: "1 \<le> num_pages (snd x)" by simp
    have "\<forall>p \<in> set xs. 1 \<le> num_pages (snd p) \<longrightarrow>
        start_page (snd p) + num_pages (snd p) \<le> start_page (snd x)"
    proof (intro ballI impI)
      fix p assume p: "p \<in> set xs" and p1: "1 \<le> num_pages (snd p)"
      with fresh have "p \<noteq> x" by auto
      with snoc.prems(3) p p1 x1 have "runs_disjoint (snd p) (snd x)" by simp
      moreover from before p have "start_page (snd p) \<le> start_page (snd x)" by simp
      ultimately show "start_page (snd p) + num_pages (snd p) \<le> start_page (snd x)"
        using x1 by (auto simp: runs_disjoint_def)
    qed
    from snoc.IH[OF sorted_xs dist_xs dj_xs this]
    have "live_pages xs \<le> start_page (snd x)" .
    moreover from snoc.prems(4) x1 have "start_page (snd x) + num_pages (snd x) \<le> S" by simp
    ultimately show ?thesis by simp
  qed
qed

lemma compactMemory_loop_cursor:
  "c + live_pages es < 2 ^ 64 \<Longrightarrow> fst (compactMemory_loop es c st) = c + live_pages es"
proof (induction es arbitrary: c st)
  case Nil
  then show ?case by simp
next
  case (Cons a es)
  obtain k e where a: "a = (k, e)" by (cases a)
  from Cons.prems have "c + num_pages e < 2 ^ 64" by (simp add: a)
  then have nowrap: "size_add c (num_pages e) = c + num_pages e" by (rule size_add_small)
  from Cons.prems have "(c + num_pages e) + live_pages es < 2 ^ 64" by (simp add: a add.assoc)
  from Cons.IH[OF this] show ?case
    unfolding a compactMemory_loop.simps Let_def nowrap by (simp add: add.assoc)
qed

lemma compactMemory_loop_copy:
  assumes fits: "data_size e \<le> num_pages e * PAGE_SIZE"
    and small: "c + num_pages e < 2 ^ 64"
  shows "readFromPages (cache (snd (compactMemory_loop [(k, e)] c st))) c (data_size e)
           = readFromPages (cache st) (start_page e) (data_size e)"
proof -
  define bytes where "bytes = readFromPages (cache st) (start_page e) (data_size e)"
  have len: "length bytes = data_size e" by (simp add: bytes_def)
  show ?thesis
  proof (cases "start_page e = c")
    case True
    have "readFromPages (cache (snd (compactMemory_loop [(k, e)] c st))) c (data_size e)
            = readFromPages (cache st) c (data_size e)"
      by (rule readFromPages_cong[OF _ fits]) (simp add: True Let_def)
    with True show ?thesis by simp
  next
    case False
    have "readFromPages (cache (snd (compactMemory_loop [(k, e)] c st))) c (data_size e)
            = readFromPages (writeToPages (cache st) c bytes) c (data_size e)"
      by (rule readFromPages_cong[OF _ fits]) (simp add: False Let_def bytes_def)
    also have "\<dots> = bytes"
      using readFromPages_writeToPages[of "cache st" c bytes] by (simp add: len)
    finally show ?thesis by (simp add: bytes_def)
  qed
qed

lemma defragment_scenario_placed: "live_entries_placed (entries defragment_scenario)"
  by (simp add: live_entries_placed_def defragment_scenario_def entry_B_def entry_D_def
        runs_disjoint_def TOTAL_PAGES_eq)

lemma upward_scenario_fields:
  "entries upward_scenario =
     [(''x'', \<lparr>key = ''x'', client_id = ''c'', start_page = 0, num_pages = 5,
               data_size = 204800, lru_iter = None, insertion_order = 2, visited = False,
               reference_bit = False, clock_position = 0\<rparr>),
      (''z'', \<lparr>key = ''z'', client_id = ''c'', start_page = 3, num_pages = 0,
               data_size = 0, lru_iter = None, insertion_order = 1, visited = False,
               reference_bit = False, clock_position = 0\<rparr>)]"
  "free_list_head upward_scenario = [\<lparr>FreeBlock.start_page = 5, num_pages = 2555\<rparr>]"
  by (simp_all add: upward_scenario_def allocatePages_def calculateRequiredPages_def
        findBestFitBlock_def initializeCache_def allocatePages_commit_def splitBlock_def
        removeFromFreeList_def remove_nth_def freePages_def addToFreeList_def
        coalesceAdjacentBlocks_def size_add_def size_sub_def PAGE_SIZE_def TOTAL_PAGES_def
        CACHE_SIZE_def SIZE_MAX_def Let_def)


section \<open>Best-fit search\<close>

lemma findBestFitBlock_loop_None:
  "findBestFitBlock_loop fl n i best best_size = None \<longleftrightarrow>
     best = None \<and> (\<forall>b \<in> set fl. \<not> (n \<le> FreeBlock.num_pages b \<and> FreeBlock.num_pages b < best_size))"
proof (induction fl arbitrary: i best best_size)
  case Nil
  then show ?case by simp
next
  case (Cons current rest)
  show ?case
    using Cons.IH by (auto simp: less_le_trans)
qed

lemma findBestFitBlock_loop_Some:
  assumes "findBestFitBlock_loop fl n i0 best bs = Some r"
  shows "(best = Some r \<and> (\<forall>b \<in> set fl. \<not> (n \<le> FreeBlock.num_pages b \<and> FreeBlock.num_pages b < bs))) \<or>
         (\<exists>j < length fl. r = i0 + j \<and> n \<le> FreeBlock.num_pages (fl ! j) \<and> FreeBlock.num_pages (fl ! j) < bs \<and>
            (\<forall>j' < length fl. n \<le> FreeBlock.num_pages (fl ! j') \<longrightarrow> FreeBlock.num_pages (fl ! j) \<le> FreeBlock.num_pages (fl ! j')) \<and>
            (\<forall>j' < j. n \<le> FreeBlock.num_pages (fl ! j') \<longrightarrow> FreeBlock.num_pages (fl ! j) < FreeBlock.num_pages (fl ! j')))"
  using assms
proof (induction fl arbitrary: i0 best bs)
  case Nil
  then show ?case by simp
next
  case (Cons current rest)
  let ?c = "FreeBlock.num_pages current"
  show ?case
  proof (cases "n \<le> ?c \<and> ?c < bs")
    case True
    show ?thesis
    proof (cases "?c = n")
      case exact: True
      with True Cons.prems have "r = i0" by simp
      with True exact show ?thesis
        by (intro disjI2 exI[of _ 0]) auto
    next
      case False
      with True Cons.prems
      have run: "findBestFitBlock_loop rest n (Suc i0) (Some i0) ?c = Some r" by simp
      from Cons.IH[OF run] show ?thesis
      proof
        assume a: "Some i0 = Some r \<and> (\<forall>b \<in> set rest. \<not> (n \<le> FreeBlock.num_pages b \<and> FreeBlock.num_pages b < ?c))"
        have "\<forall>j' < length (current # rest). n \<le> FreeBlock.num_pages ((current # rest) ! j') \<longrightarrow> ?c \<le> FreeBlock.num_pages ((current # rest) ! j')"
        proof (intro allI impI)
          fix j' assume "j' < length (current # rest)" "n \<le> FreeBlock.num_pages ((current # rest) ! j')"
          then show "?c \<le> FreeBlock.num_pages ((current # rest) ! j')"
            using a by (cases j') (auto simp: not_less dest: nth_mem)
        qed
        with a True show ?thesis
          by (intro disjI2 exI[of _ 0]) auto
      next
        assume "\<exists>j<length rest. r = Suc i0 + j \<and> n \<le> FreeBlock.num_pages (rest ! j) \<and> FreeBlock.num_pages (rest ! j) < ?c \<and>
            (\<forall>j' < length rest. n \<le> FreeBlock.num_pages (rest ! j') \<longrightarrow> FreeBlock.num_pages (rest ! j) \<le> FreeBlock.num_pages (rest ! j')) \<and>
            (\<forall>j' < j. n \<le> FreeBlock.num_pages (rest ! j') \<longrightarrow> FreeBlock.num_pages (rest ! j) < FreeBlock.num_pages (rest ! j'))"
        then obtain j where j: "j < length rest" "r = Suc i0 + j" "n \<le> FreeBlock.num_pages (rest ! j)"
            "FreeBlock.num_pages (rest ! j) < ?c"
            "\<forall>j' < length rest. n \<le> FreeBlock.num_pages (rest ! j') \<longrightarrow> FreeBlock.num_pages (rest ! j) \<le> FreeBlock.num_pages (rest ! j')"
            "\<forall>j' < j. n \<le> FreeBlock.num_pages (rest ! j') \<longrightarrow> FreeBlock.num_pages (rest ! j) < FreeBlock.num_pages (rest ! j')"
          by blast
        have all: "\<forall>j' < length (current # rest). n \<le> FreeBlock.num_pages ((current # rest) ! j') \<longrightarrow> FreeBlock.num_pages (rest ! j) \<le> FreeBlock.num_pages ((current # rest) ! j')"
        proof (intro allI impI)
          fix j' assume "j' < length (current # rest)" "n \<le> FreeBlock.num_pages ((current # rest) ! j')"
          then show "FreeBlock.num_pages (rest ! j) \<le> FreeBlock.num_pages ((current # rest) ! j')"
            using j by (cases j') auto
        qed
        have before: "\<forall>j' < Suc j. n \<le> FreeBlock.num_pages ((current # rest) ! j') \<longrightarrow> FreeBlock.num_pages (rest ! j) < FreeBlock.num_pages ((current # rest) ! j')"
        proof (intro allI impI)
          fix j' assume "j' < Suc j" "n \<le> FreeBlock.num_pages ((current # rest) ! j')"
          then show "FreeBlock.num_pages (rest ! j) < FreeBlock.num_pages ((current # rest) ! j')"
            using j by (cases j') auto
        qed
        from j True all before show ?thesis
          by (intro disjI2 exI[of _ "Suc j"]) auto
      qed
    qed
  next
    case False
    with Cons.prems
    have run: "findBestFitBlock_loop rest n (Suc i0) best bs = Some r" by auto
    from Cons.IH[OF run] show ?thesis
    proof
      assume "best = Some r \<and> (\<forall>b \<in> set rest. \<not> (n \<le> FreeBlock.num_pages b \<and> FreeBlock.num_pages b < bs))"
      with False show ?thesis by auto
    next
      assume "\<exists>j<length rest. r = Suc i0 + j \<and> n \<le> FreeBlock.num_pages (rest ! j) \<and> FreeBlock.num_pages (rest ! j) < bs \<and>
            (\<forall>j' < length rest. n \<le> FreeBlock.num_pages (rest ! j') \<longrightarrow> FreeBlock.num_pages (rest ! j) \<le> FreeBlock.num_pages (rest ! j')) \<and>
            (\<forall>j' < j. n \<le> FreeBlock.num_pages (rest ! j') \<longrightarrow> FreeBlock.num_pages (rest ! j) < FreeBlock.num_pages (rest ! j'))"
      then obtain j where j: "j < length rest" "r = Suc i0 + j" "n \<le> FreeBlock.num_pages (rest ! j)"
            "FreeBlock.num_pages (rest ! j) < bs"
            "\<forall>j' < length rest. n \<le> FreeBlock.num_pages (rest ! j') \<longrightarrow> FreeBlock.num_pages (rest ! j) \<le> FreeBlock.num_pages (rest ! j')"
            "\<forall>j' < j. n \<le> FreeBlock.num_pages (rest ! j') \<longrightarrow> FreeBlock.num_pages (rest ! j) < FreeBlock.num_pages (rest ! j')"
        by blast
      have all: "\<forall>j' < length (current # rest). n \<le> FreeBlock.num_pages ((current # rest) ! j') \<longrightarrow> FreeBlock.num_pages (rest ! j) \<le> FreeBlock.num_pages ((current # rest) ! j')"
      proof (intro allI impI)
        fix j' assume "j' < length (current # rest)" "n \<le> FreeBlock.num_pages ((current # rest) ! j')"
        then show "FreeBlock.num_pages (rest ! j) \<le> FreeBlock.num_pages ((current # rest) ! j')"
          using j False by (cases j') auto
      qed
      have before: "\<forall>j' < Suc j. n \<le> FreeBlock.num_pages ((current # rest) ! j') \<longrightarrow> FreeBlock.num_pages (rest ! j) < FreeBlock.num_pages ((current # rest) ! j')"
      proof (intro allI impI)
        fix j' assume "j' < Suc j" "n \<le> FreeBlock.num_pages ((current # rest) ! j')"
        then show "FreeBlock.num_pages (rest ! j) < FreeBlock.num_pages ((current # rest) ! j')"
          using j False by (cases j') auto
      qed
      from j all before show ?thesis
        by (intro disjI2 exI[of _ "Suc j"]) auto
    qed
  qed
qed

lemma findBestFitBlock_loop_exact_stop:
  "FreeBlock.num_pages b = n \<Longrightarrow>
   findBestFitBlock_loop (pre @ b # post) n i best bs = findBestFitBlock_loop (pre @ [b]) n i best bs"
proof (induction pre arbitrary: i best bs)
  case Nil
  have "findBestFitBlock_loop post n (Suc i) best bs = best" if "bs \<le> n"
    using that
  proof (induction post arbitrary: i)
    case Nil then show ?case by simp
  next
    case (Cons a post) then show ?case by auto
  qed
  with Nil show ?case by auto
next
  case (Cons a pre)
  then show ?case by simp
qed

text \<open>
  C3. On a free list whose extents are shorter than \<open>SIZE_MAX\<close> pages (every extent of
  the arena is), \<open>findBestFitBlock\<close> returns no block exactly when no extent has at least
  \<open>n\<close> pages; a block it returns is an extent of the list with at least \<open>n\<close> pages, no
  extent with at least \<open>n\<close> pages is shorter, and every such extent before it is strictly
  longer, so that ties go to the earliest; and the scan stops at an exact match: the
  result does not depend on what follows an extent of exactly \<open>n\<close> pages.
\<close>

theorem findBestFitBlock_best_fit:
  assumes "\<forall>b \<in> set (free_list_head st). FreeBlock.num_pages b < SIZE_MAX"
  shows "(findBestFitBlock st n = None \<longleftrightarrow>
            (\<forall>b \<in> set (free_list_head st). FreeBlock.num_pages b < n)) \<and>
         (\<forall>i. findBestFitBlock st n = Some i \<longrightarrow>
            i < length (free_list_head st) \<and>
            n \<le> FreeBlock.num_pages (free_list_head st ! i) \<and>
            (\<forall>j < length (free_list_head st).
               n \<le> FreeBlock.num_pages (free_list_head st ! j) \<longrightarrow>
               FreeBlock.num_pages (free_list_head st ! i)
                 \<le> FreeBlock.num_pages (free_list_head st ! j)) \<and>
            (\<forall>j < i.
               n \<le> FreeBlock.num_pages (free_list_head st ! j) \<longrightarrow>
               FreeBlock.num_pages (free_list_head st ! i)
                 < FreeBlock.num_pages (free_list_head st ! j))) \<and>
         (\<forall>pre b post post'.
            free_list_head st = pre @ b # post \<and> FreeBlock.num_pages b = n \<longrightarrow>
            findBestFitBlock st n
              = findBestFitBlock (st\<lparr>free_list_head := pre @ b # post'\<rparr>) n)"
proof (intro conjI allI impI)
  show "findBestFitBlock st n = None \<longleftrightarrow>
          (\<forall>b \<in> set (free_list_head st). FreeBlock.num_pages b < n)"
    using assms unfolding findBestFitBlock_def findBestFitBlock_loop_None
    by (auto simp: not_le)
next
  fix i
  assume "findBestFitBlock st n = Some i"
  then have run: "findBestFitBlock_loop (free_list_head st) n 0 None SIZE_MAX = Some i"
    by (simp add: findBestFitBlock_def)
  from findBestFitBlock_loop_Some[OF run]
  obtain j where j: "j < length (free_list_head st)" "i = j"
      "n \<le> FreeBlock.num_pages (free_list_head st ! j)"
      "\<forall>j' < length (free_list_head st).
          n \<le> FreeBlock.num_pages (free_list_head st ! j') \<longrightarrow>
          FreeBlock.num_pages (free_list_head st ! j)
            \<le> FreeBlock.num_pages (free_list_head st ! j')"
      "\<forall>j' < j. n \<le> FreeBlock.num_pages (free_list_head st ! j') \<longrightarrow>
          FreeBlock.num_pages (free_list_head st ! j)
            < FreeBlock.num_pages (free_list_head st ! j')"
    by auto
  from j show "i < length (free_list_head st)" by simp
  from j show "n \<le> FreeBlock.num_pages (free_list_head st ! i)" by simp
  {
    fix j' assume "j' < length (free_list_head st)"
      "n \<le> FreeBlock.num_pages (free_list_head st ! j')"
    with j show "FreeBlock.num_pages (free_list_head st ! i)
                   \<le> FreeBlock.num_pages (free_list_head st ! j')" by simp
  }
  {
    fix j' assume "j' < i" "n \<le> FreeBlock.num_pages (free_list_head st ! j')"
    with j show "FreeBlock.num_pages (free_list_head st ! i)
                   < FreeBlock.num_pages (free_list_head st ! j')" by simp
  }
next
  fix pre b post post'
  assume "free_list_head st = pre @ b # post \<and> FreeBlock.num_pages b = n"
  then show "findBestFitBlock st n
               = findBestFitBlock (st\<lparr>free_list_head := pre @ b # post'\<rparr>) n"
    using findBestFitBlock_loop_exact_stop[of b n pre post 0 None SIZE_MAX]
          findBestFitBlock_loop_exact_stop[of b n pre post' 0 None SIZE_MAX]
    by (simp add: findBestFitBlock_def)
qed

theorem findBestFitBlock_best_fit_witness:
  "findBestFitBlock best_fit_scenario 2 = Some 0 \<and>
   findBestFitBlock best_fit_scenario 3 = Some 1 \<and>
   findBestFitBlock best_fit_scenario 6 = None"
proof -
  have short: "\<forall>b \<in> set (free_list_head best_fit_scenario). FreeBlock.num_pages b < SIZE_MAX"
    by (simp add: best_fit_scenario_def initializeCache_def SIZE_MAX_def)
  show ?thesis
    using findBestFitBlock_best_fit[OF short, of 2] findBestFitBlock_best_fit[OF short, of 6]
    by (simp add: best_fit_scenario_def initializeCache_def findBestFitBlock_def SIZE_MAX_def)
qed

section \<open>The verdict of the defragmenter\<close>

lemma Max_insert_max:
  "finite A \<Longrightarrow> Max (insert (max a b) A) = Max (insert a (insert (b::nat) A))"
proof -
  assume fin: "finite A"
  have "Max (insert a (insert b A)) = max a (Max (insert b A))"
    using fin by simp
  also have "\<dots> = (if A = {} then max a b else max a (max b (Max A)))"
    using fin by simp
  also have "\<dots> = Max (insert (max a b) A)"
    using fin by (simp add: max.assoc)
  finally show ?thesis by simp
qed

lemma getFragmentationStats_loop_largest:
  "largest_free_block (getFragmentationStats_loop fl frag_stats)
     = Max (insert (largest_free_block frag_stats) (FreeBlock.num_pages ` set fl))"
proof (induction fl arbitrary: frag_stats)
  case Nil
  then show ?case by simp
next
  case (Cons current rest)
  have "(if largest_free_block frag_stats < FreeBlock.num_pages current
         then FreeBlock.num_pages current else largest_free_block frag_stats)
        = max (largest_free_block frag_stats) (FreeBlock.num_pages current)"
    by (simp add: max_def)
  then show ?case
    by (simp add: Cons.IH Max_insert_max del: Max.insert)
qed

text \<open>
  C6. For every state and every requested page count \<open>n\<close>, \<open>defragment\<close> returns true
  exactly when the largest extent of the free list that \<open>compactMemory\<close> makes of the
  state has at least \<open>n\<close> pages. The state it leaves has that free list: it is the
  compacted state with the defragmentation counter advanced. Where the live entries are
  as the data model has them, the verdict is true exactly when \<open>n\<close> is at most
  \<open>TOTAL_PAGES\<close> less the pages of the live entries.
\<close>

theorem defragment_success_criterion:
  "(fst (defragment st n) \<longleftrightarrow> n \<le> largest_extent (free_list_head (compactMemory st))) \<and>
   free_list_head (snd (defragment st n)) = free_list_head (compactMemory st) \<and>
   snd (defragment st n)
     = (compactMemory st)\<lparr>stats := (stats st)\<lparr>defragmentations :=
                                  (defragmentations (stats st) + 1) mod 2 ^ 64\<rparr>\<rparr> \<and>
   (live_entries_ok (entries st) \<longrightarrow>
      (fst (defragment st n) \<longleftrightarrow> n \<le> TOTAL_PAGES - live_pages (entries st)))"
proof -
  let ?st1 = "st\<lparr>stats := (stats st)\<lparr>defragmentations :=
                    (defragmentations (stats st) + 1) mod 2 ^ 64\<rparr>\<rparr>"
  have snd_eq: "snd (defragment st n) = compactMemory ?st1"
    by (simp add: defragment_def Let_def)
  have fl: "free_list_head (snd (defragment st n)) = free_list_head (compactMemory st)"
    unfolding snd_eq by (rule compactMemory_free_list_stats)
  have "fst (defragment st n)
          \<longleftrightarrow> n \<le> largest_extent (free_list_head (snd (defragment st n)))"
    by (simp add: defragment_def Let_def getFragmentationStats_def
          getFragmentationStats_loop_largest largest_extent_def)
  then have verdict: "fst (defragment st n)
          \<longleftrightarrow> n \<le> largest_extent (free_list_head (compactMemory st))"
    by (simp only: fl)
  have ent: "snd (defragment st n)
     = (compactMemory st)\<lparr>stats := (stats st)\<lparr>defragmentations :=
                                  (defragmentations (stats st) + 1) mod 2 ^ 64\<rparr>\<rparr>"
    unfolding snd_eq by (rule compactMemory_stats)
  have closed: "fst (defragment st n) \<longleftrightarrow> n \<le> TOTAL_PAGES - live_pages (entries st)"
    if ok: "live_entries_ok (entries st)"
  proof -
    from compactMemory_packs[OF ok]
    have "free_list_head (compactMemory st)
           = (if live_pages (entries st) < TOTAL_PAGES
              then [\<lparr>FreeBlock.start_page = live_pages (entries st),
                     num_pages = TOTAL_PAGES - live_pages (entries st)\<rparr>]
              else [])"
      by blast
    then have "largest_extent (free_list_head (compactMemory st))
                 = TOTAL_PAGES - live_pages (entries st)"
      by simp
    with verdict show ?thesis by simp
  qed
  from verdict fl ent closed show ?thesis by blast
qed

theorem defragment_success_criterion_witness:
  "largest_extent (free_list_head defragment_scenario) = 4 \<and>
   fst (defragment defragment_scenario 6) \<and>
   \<not> fst (defragment defragment_scenario 8) \<and>
   TOTAL_PAGES - live_pages (entries defragment_scenario) = 7"
proof -
  have before: "largest_extent (free_list_head defragment_scenario) = 4"
    by (simp add: defragment_scenario_def largest_extent_def)
  have lp: "TOTAL_PAGES - live_pages (entries defragment_scenario) = 7"
    by (simp add: defragment_scenario_def entry_B_def entry_D_def TOTAL_PAGES_eq)
  from defragment_success_criterion[of defragment_scenario 6]
  have "live_entries_ok (entries defragment_scenario) \<longrightarrow>
          (fst (defragment defragment_scenario 6)
             \<longleftrightarrow> 6 \<le> TOTAL_PAGES - live_pages (entries defragment_scenario))"
    by blast
  with defragment_scenario_ok have six: "fst (defragment defragment_scenario 6)"
    by (simp add: lp)
  from defragment_success_criterion[of defragment_scenario 8]
  have "live_entries_ok (entries defragment_scenario) \<longrightarrow>
          (fst (defragment defragment_scenario 8)
             \<longleftrightarrow> 8 \<le> TOTAL_PAGES - live_pages (entries defragment_scenario))"
    by blast
  with defragment_scenario_ok have eight: "\<not> fst (defragment defragment_scenario 8)"
    by (simp add: lp)
  from before six eight lp show ?thesis by blast
qed

section \<open>Accounting of free pages\<close>

text \<open>
  C1. Allocating one page from the single extent of a fresh cache, which is strictly
  larger, goes through the splitting branch of \<open>splitBlock\<close>: the extent shrinks to 2559
  pages and the entry holds one page, but \<open>total_free_pages\<close> is still 2560. The counter
  then differs from the pages of the free list, and counter plus live pages is 2561, not
  \<open>TOTAL_PAGES\<close>.
\<close>

theorem allocatePages_split_accounting:
  "fst (allocatePages evict initializeCache ''a'' 1 ''c'') \<and>
   free_list_head (snd (allocatePages evict initializeCache ''a'' 1 ''c''))
     = [\<lparr>FreeBlock.start_page = 1, num_pages = 2559\<rparr>] \<and>
   total_free_pages (snd (allocatePages evict initializeCache ''a'' 1 ''c'')) = 2560 \<and>
   free_list_pages (free_list_head (snd (allocatePages evict initializeCache ''a'' 1 ''c''))) = 2559 \<and>
   live_pages (entries (snd (allocatePages evict initializeCache ''a'' 1 ''c''))) = 1 \<and>
   TOTAL_PAGES = 2560"
  by (simp add: allocatePages_def calculateRequiredPages_def findBestFitBlock_def
        initializeCache_def allocatePages_commit_def splitBlock_def removeFromFreeList_def
        size_add_def size_sub_def PAGE_SIZE_def TOTAL_PAGES_def CACHE_SIZE_def SIZE_MAX_def
        free_list_pages_def live_pages_def Let_def)

section \<open>Page counts of live entries\<close>

lemma page_count_ok_start_page [simp]:
  "page_count_ok (e\<lparr>start_page := x\<rparr>) = page_count_ok e"
  by (simp add: page_count_ok_def)

lemma defragment_page_count:
  assumes "\<forall>p \<in> set (entries st). page_count_ok (snd p)"
  shows "\<forall>p \<in> set (entries (snd (defragment st n))). page_count_ok (snd p)"
proof
  fix p assume "p \<in> set (entries (snd (defragment st n)))"
  then have "p \<in> set (entries (compactMemory (st\<lparr>stats := (stats st)\<lparr>defragmentations :=
                    (defragmentations (stats st) + 1) mod 2 ^ 64\<rparr>\<rparr>)))"
    by (simp add: defragment_def Let_def)
  from compactMemory_entries[OF this] obtain q where
    "q \<in> set (entries st)" "snd p = (snd q)\<lparr>start_page := start_page (snd p)\<rparr>" by auto
  with assms show "page_count_ok (snd p)"
    by (metis page_count_ok_start_page)
qed

lemma allocatePages_commit_page_count:
  assumes "\<forall>p \<in> set (entries st). page_count_ok (snd p)"
  shows "\<forall>p \<in> set (entries (allocatePages_commit st b k nbytes client (calculateRequiredPages nbytes))).
           page_count_ok (snd p)"
  using assms
  by (auto simp: allocatePages_commit_def Let_def page_count_ok_def dest!: set_AList_update)

lemma allocatePages_retry_page_count:
  assumes "\<forall>p \<in> set (entries st). page_count_ok (snd p)"
  shows "\<forall>p \<in> set (entries (snd (allocatePages_retry st k nbytes client (calculateRequiredPages nbytes)))).
           page_count_ok (snd p)"
  using allocatePages_commit_page_count[OF assms] assms
  by (simp add: allocatePages_retry_def split: option.splits)

lemma page_count_kept_by_allocatePages:
  assumes inv: "\<forall>p \<in> set (entries st). page_count_ok (snd p)"
    and ev: "\<And>n s. \<forall>p \<in> set (entries s). page_count_ok (snd p) \<Longrightarrow>
               \<forall>p \<in> set (entries (snd (evict n s))). page_count_ok (snd p)"
  shows "\<forall>p \<in> set (entries (snd (allocatePages evict st k nbytes client))). page_count_ok (snd p)"
proof -
  let ?n = "calculateRequiredPages nbytes"
  note d = defragment_page_count[OF inv, of ?n]
  note e1 = ev[OF inv, of ?n]
  note e2 = ev[OF d, of ?n]
  show ?thesis
    using inv d e1 e2
      allocatePages_commit_page_count[OF inv]
      allocatePages_retry_page_count[OF d] allocatePages_retry_page_count[OF e1]
      allocatePages_retry_page_count[OF e2]
    by (simp add: allocatePages_def Let_def split: option.splits prod.splits)
qed

lemma page_count_ceiling:
  assumes ok: "page_count_ok e" and small: "data_size e + PAGE_SIZE - 1 \<le> SIZE_MAX"
  shows "int (num_pages e) = \<lceil>real (data_size e) / real PAGE_SIZE\<rceil>"
    and "1 \<le> num_pages e \<longleftrightarrow> 1 \<le> data_size e"
proof -
  have n: "num_pages e = (data_size e + PAGE_SIZE - 1) div PAGE_SIZE"
    using ok calculateRequiredPages_no_wrap[OF small] by (simp add: page_count_ok_def)
  show "int (num_pages e) = \<lceil>real (data_size e) / real PAGE_SIZE\<rceil>"
    unfolding n by (rule ceiling_div_nat[OF PAGE_SIZE_pos])
  show "1 \<le> num_pages e \<longleftrightarrow> 1 \<le> data_size e"
  proof (cases "data_size e = 0")
    case True
    then show ?thesis using PAGE_SIZE_pos by (simp add: n)
  next
    case False
    then have "PAGE_SIZE \<le> data_size e + PAGE_SIZE - 1" by simp
    then have "PAGE_SIZE div PAGE_SIZE \<le> (data_size e + PAGE_SIZE - 1) div PAGE_SIZE"
      by (rule div_le_mono)
    with False show ?thesis using PAGE_SIZE_pos by (simp add: n)
  qed
qed

lemma evictFIFO_page_count:
  "\<forall>p \<in> set (entries s). page_count_ok (snd p) \<Longrightarrow>
   \<forall>p \<in> set (entries (snd (evictFIFO n s))). page_count_ok (snd p)"
  using evictFIFO_entries[of n s] by blast

lemma allocatePages_fresh_one_byte:
  "entries (snd (allocatePages evictFIFO initializeCache ''k'' 1 ''c'')) =
     [(''k'', \<lparr>key = ''k'', client_id = ''c'', start_page = 0, num_pages = 1, data_size = 1,
              lru_iter = None, insertion_order = 0, visited = False, reference_bit = False,
              clock_position = 0\<rparr>)]"
  by (simp add: allocatePages_def calculateRequiredPages_def findBestFitBlock_def
        initializeCache_def allocatePages_commit_def splitBlock_def removeFromFreeList_def
        size_add_def size_sub_def PAGE_SIZE_def TOTAL_PAGES_def CACHE_SIZE_def SIZE_MAX_def Let_def)

text \<open>
  C8, as the code has it. If every entry of the table has the page count computed from
  its data size, and the evictor keeps that, then after \<open>allocatePages\<close> every entry
  still has it; where \<open>data_size + PAGE_SIZE - 1\<close> does not exceed \<open>SIZE_MAX\<close>, that
  count is the ceiling of \<open>data_size / PAGE_SIZE\<close>, and it is at least one page exactly
  when the value has at least one byte.
\<close>

theorem allocatePages_page_count:
  assumes inv: "\<forall>p \<in> set (entries st). page_count_ok (snd p)"
    and ev: "\<And>n s. \<forall>p \<in> set (entries s). page_count_ok (snd p) \<Longrightarrow>
               \<forall>p \<in> set (entries (snd (evict n s))). page_count_ok (snd p)"
  shows "\<forall>p \<in> set (entries (snd (allocatePages evict st k nbytes client))).
           page_count_ok (snd p) \<and>
           (data_size (snd p) + PAGE_SIZE - 1 \<le> SIZE_MAX \<longrightarrow>
              int (num_pages (snd p)) = \<lceil>real (data_size (snd p)) / real PAGE_SIZE\<rceil> \<and>
              (1 \<le> num_pages (snd p) \<longleftrightarrow> 1 \<le> data_size (snd p)))"
proof -
  have "\<forall>p \<in> set (entries (snd (allocatePages evict st k nbytes client))). page_count_ok (snd p)"
    by (rule page_count_kept_by_allocatePages[OF inv]) (rule ev)
  then show ?thesis
    using page_count_ceiling by blast
qed

theorem allocatePages_page_count_witness:
  "page_count_ok \<lparr>key = ''k'', client_id = ''c'', start_page = 0, num_pages = 1, data_size = 1,
              lru_iter = None, insertion_order = 0, visited = False, reference_bit = False,
              clock_position = 0\<rparr> \<and>
   int (1::nat) = \<lceil>real (1::nat) / real PAGE_SIZE\<rceil>"
proof -
  have inv: "\<forall>p \<in> set (entries initializeCache). page_count_ok (snd p)"
    by (simp add: initializeCache_def)
  have small: "(1::nat) + PAGE_SIZE - 1 \<le> SIZE_MAX"
    by (simp add: PAGE_SIZE_def SIZE_MAX_def)
  have "\<forall>p \<in> set (entries (snd (allocatePages evictFIFO initializeCache ''k'' 1 ''c''))).
           page_count_ok (snd p) \<and>
           (data_size (snd p) + PAGE_SIZE - 1 \<le> SIZE_MAX \<longrightarrow>
              int (num_pages (snd p)) = \<lceil>real (data_size (snd p)) / real PAGE_SIZE\<rceil> \<and>
              (1 \<le> num_pages (snd p) \<longleftrightarrow> 1 \<le> data_size (snd p)))"
    by (rule allocatePages_page_count[OF inv evictFIFO_page_count])
  then show ?thesis
    unfolding allocatePages_fresh_one_byte using small by simp
qed

text \<open>
  C8, as stated, fails for a value of zero bytes: \<open>calculateRequiredPages\<close> gives zero
  pages, the allocation on a fresh cache succeeds, and the stored entry has
  \<open>num_pages = 0\<close>.
\<close>

theorem zero_byte_value_occupies_no_page:
  "calculateRequiredPages 0 = 0 \<and>
   fst (allocatePages evictFIFO initializeCache ''k'' 0 ''c'') \<and>
   entries (snd (allocatePages evictFIFO initializeCache ''k'' 0 ''c'')) =
     [(''k'', \<lparr>key = ''k'', client_id = ''c'', start_page = 0, num_pages = 0, data_size = 0,
              lru_iter = None, insertion_order = 0, visited = False, reference_bit = False,
              clock_position = 0\<rparr>)]"
  by (simp add: allocatePages_def calculateRequiredPages_def findBestFitBlock_def
        initializeCache_def allocatePages_commit_def splitBlock_def removeFromFreeList_def
        size_add_def size_sub_def PAGE_SIZE_def TOTAL_PAGES_def CACHE_SIZE_def SIZE_MAX_def Let_def)

section \<open>Releasing the pages of an entry\<close>



section \<open>The admission sequence\<close>

text \<open>
  C4. With an evictor that has nothing to do when the free pages already suffice,
  \<open>allocatePages\<close> does what the admission sequence of the specification does: it
  returns the same state, and true where the sequence returns \<open>Ok\<close>, false where it
  returns \<open>OutOfCapacity\<close>.
\<close>

theorem allocatePages_admission_sequence:
  assumes idle: "\<And>s. calculateRequiredPages nbytes \<le> total_free_pages s \<Longrightarrow>
                   evict (calculateRequiredPages nbytes) s = (True, s)"
  shows "admission evict st k nbytes client =
           (admission_result_of (fst (allocatePages evict st k nbytes client)),
            snd (allocatePages evict st k nbytes client))"
proof -
  let ?n = "calculateRequiredPages nbytes"
  show ?thesis
  proof (cases "findBestFitBlock st ?n")
    case (Some ext)
    then show ?thesis
      by (simp add: admission_def allocatePages_def admission_result_of_def Let_def)
  next
    case None
    show ?thesis
    proof (cases "?n \<le> total_free_pages st")
      case False
      with None show ?thesis
        by (simp add: admission_def allocatePages_def admission_evict_def allocatePages_retry_def
              admission_result_of_def Let_def split: prod.splits bool.splits option.splits)
    next
      case True
      obtain ok st1 where d: "defragment st ?n = (ok, st1)" by (cases "defragment st ?n")
      show ?thesis
      proof (cases "findBestFitBlock st1 ?n")
        case (Some ext)
        have "ok"
        proof (cases "?n = 0")
          case True
          then show ?thesis using d by (simp add: defragment_def Let_def)
        next
          case False
          then show ?thesis
            using defragment_verdict_best_fit[of ?n st] d Some by simp
        qed
        with None True d Some show ?thesis
          by (simp add: admission_def allocatePages_def allocatePages_retry_def
                admission_result_of_def Let_def)
      next
        case no_fit: None
        show ?thesis
        proof (cases "?n = 0")
          case zero: True
          from no_fit d zero have "findBestFitBlock (snd (defragment st 0)) 0 = None" by simp
          from defragment_empty_free_list[OF this] d zero
          have ok: ok and free: "total_free_pages st1 = 0" by simp_all
          from free zero have "evict ?n st1 = (True, st1)" by (intro idle) simp
          with None True d no_fit ok show ?thesis
            by (simp add: admission_def allocatePages_def allocatePages_retry_def
                admission_evict_def admission_result_of_def Let_def)
        next
          case False
          then have "\<not> ok"
            using defragment_verdict_best_fit[of ?n st] d no_fit by simp
          with None True d no_fit show ?thesis
            by (simp add: admission_def allocatePages_def allocatePages_retry_def
                admission_evict_def admission_result_of_def Let_def
                split: prod.splits bool.splits option.splits)
        qed
      qed
    qed
  qed
qed

theorem allocatePages_admission_sequence_witness:
  "fst (admission evictFIFO defragment_scenario ''K'' 245760 ''c'') = Ok \<and>
   free_list_head (snd (admission evictFIFO defragment_scenario ''K'' 245760 ''c''))
     = [\<lparr>FreeBlock.start_page = 2559, num_pages = 1\<rparr>]"
  using allocatePages_admission_sequence[where evict = evictFIFO and st = defragment_scenario
          and nbytes = 245760 and k = "''K''" and client = "''c''", OF evictFIFO_idle]
  by (simp add: allocate_defragment_scenario admission_result_of_def)

section \<open>Requests larger than the arena\<close>

lemma findBestFitBlock_too_large:
  assumes "\<forall>b \<in> set (free_list_head st). FreeBlock.num_pages b \<le> TOTAL_PAGES"
    and "TOTAL_PAGES < n"
  shows "findBestFitBlock st n = None"
  using assms unfolding findBestFitBlock_def findBestFitBlock_loop_None by fastforce

lemma defragment_too_large:
  assumes "TOTAL_PAGES < n"
  shows "\<not> fst (defragment st n)"
    and "\<forall>b \<in> set (free_list_head (snd (defragment st n))). FreeBlock.num_pages b \<le> TOTAL_PAGES"
proof -
  let ?st1 = "st\<lparr>stats := (stats st)\<lparr>defragmentations :=
                    (defragmentations (stats st) + 1) mod 2 ^ 64\<rparr>\<rparr>"
  have snd_eq: "snd (defragment st n) = compactMemory ?st1"
    by (simp add: defragment_def Let_def)
  from compactMemory_free_list[of ?st1]
  show "\<forall>b \<in> set (free_list_head (snd (defragment st n))). FreeBlock.num_pages b \<le> TOTAL_PAGES"
    by (auto simp: snd_eq)
  then have "findBestFitBlock (snd (defragment st n)) n = None"
    using assms by (rule findBestFitBlock_too_large)
  moreover have "1 \<le> n" using assms by simp
  ultimately show "\<not> fst (defragment st n)"
    using defragment_verdict_best_fit[of n st] by simp
qed

text \<open>
  C9, as the code has it. A request for more than \<open>TOTAL_PAGES\<close> pages, on a free list
  whose extents lie within the arena and with an evictor that leaves them so, is never
  committed: \<open>allocatePages\<close> returns false, its only failure value, after it has run
  the evictor (and before that the defragmenter, when \<open>total_free_pages\<close> is large
  enough), and the state it returns is the one the evictor leaves.
\<close>

theorem allocatePages_beyond_arena:
  assumes big: "TOTAL_PAGES < calculateRequiredPages nbytes"
    and fl: "\<forall>b \<in> set (free_list_head st). FreeBlock.num_pages b \<le> TOTAL_PAGES"
    and mid: "mid = (if calculateRequiredPages nbytes \<le> total_free_pages st
                     then snd (defragment st (calculateRequiredPages nbytes)) else st)"
    and ev: "\<forall>b \<in> set (free_list_head (snd (evict (calculateRequiredPages nbytes) mid))).
               FreeBlock.num_pages b \<le> TOTAL_PAGES"
  shows "allocatePages evict st k nbytes client
           = (False, snd (evict (calculateRequiredPages nbytes) mid))"
proof -
  let ?n = "calculateRequiredPages nbytes"
  have none: "findBestFitBlock st ?n = None"
    using fl big by (rule findBestFitBlock_too_large)
  have after: "findBestFitBlock (snd (evict ?n mid)) ?n = None"
    using ev big by (rule findBestFitBlock_too_large)
  obtain evicted st2 where e: "evict ?n mid = (evicted, st2)" by (cases "evict ?n mid")
  show ?thesis
  proof (cases "?n \<le> total_free_pages st")
    case True
    obtain ok st1 where d: "defragment st ?n = (ok, st1)" by (cases "defragment st ?n")
    have "\<not> ok" using defragment_too_large(1)[OF big, of st] d by simp
    moreover have "mid = st1" using mid True d by simp
    ultimately show ?thesis
      using none True d e after
      by (simp add: allocatePages_def allocatePages_retry_def Let_def)
  next
    case False
    then have "mid = st" using mid by simp
    then show ?thesis
      using none False e after
      by (simp add: allocatePages_def allocatePages_retry_def Let_def)
  qed
qed

theorem allocatePages_beyond_arena_witness:
  "allocatePages evictFIFO full_cache ''b'' 104898560 ''c''
     = (False, snd (evictFIFO 2561 full_cache))"
proof -
  have big: "TOTAL_PAGES < calculateRequiredPages 104898560"
    by (simp add: pages_beyond_arena TOTAL_PAGES_eq)
  have fl: "\<forall>b \<in> set (free_list_head full_cache). FreeBlock.num_pages b \<le> TOTAL_PAGES"
    by (simp add: full_cache_fields)
  have mid: "full_cache = (if calculateRequiredPages 104898560 \<le> total_free_pages full_cache
                     then snd (defragment full_cache (calculateRequiredPages 104898560)) else full_cache)"
    by (simp add: pages_beyond_arena full_cache_fields)
  have ev: "\<forall>b \<in> set (free_list_head (snd (evictFIFO (calculateRequiredPages 104898560) full_cache))).
               FreeBlock.num_pages b \<le> TOTAL_PAGES"
    by (simp add: pages_beyond_arena evict_full_cache TOTAL_PAGES_eq)
  show ?thesis
    using allocatePages_beyond_arena[where evict = evictFIFO and st = full_cache
            and nbytes = 104898560 and mid = full_cache and k = "''b''" and client = "''c''",
            OF big fl mid ev]
    by (simp add: pages_beyond_arena)
qed

text \<open>
  C9, as stated, fails: on a cache filled by one entry, a request for 2561 pages returns
  the plain false, and the entry that was live before the call has been evicted.
\<close>

theorem payload_too_large_evicts:
  "fst (allocatePages evictFIFO full_cache ''b'' 104898560 ''c'') = False \<and>
   map fst (entries full_cache) = [''a''] \<and>
   entries (snd (allocatePages evictFIFO full_cache ''b'' 104898560 ''c'')) = []"
proof -
  define st2 where "st2 = snd (evictFIFO 2561 full_cache)"
  have e: "evictFIFO 2561 full_cache = (False, st2)"
    using evict_full_cache(1) by (simp add: st2_def prod_eq_iff)
  have gone: "entries st2 = []"
    by (simp add: st2_def evict_full_cache)
  show ?thesis
    by (simp add: allocatePages_def pages_beyond_arena findBestFitBlock_def full_cache_fields
          e gone Let_def)
qed

section \<open>The ordering of the free list\<close>







lemma free_pages_simps [simp]:
  "free_pages [] = {}"
  "free_pages (b # fl) = extent_pages b \<union> free_pages fl"
  "free_pages (xs @ ys) = free_pages xs \<union> free_pages ys"
  by (auto simp: free_pages_def)






section \<open>Relocation moves entries downwards\<close>

text \<open>
  C5, as the code has it. In a state whose entries lie within the arena, with the runs of
  the entries that hold pages disjoint, let the relocation loop reach an entry \<open>e\<close> of at
  least one page after the entries \<open>pre\<close> that are sorted before it, with the cursor it
  has then. If the cursor differs from the start page of \<open>e\<close>, so that \<open>e\<close> is
  relocated, the cursor is strictly less than that start page; the loop goes on from
  that cursor; and the bytes read back at the cursor after the step are the
  \<open>data_size\<close> bytes that were at the old place before it.
\<close>

theorem compactMemory_relocates_downwards:
  assumes ok: "live_entries_placed (entries st)"
    and at: "sort_key (\<lambda>p. start_page (snd p)) (entries st) = pre @ (k, e) # post"
    and st0: "st0 = st\<lparr>free_list_head := [], total_free_pages := 0\<rparr>"
    and cur: "cursor = fst (compactMemory_loop pre 0 st0)"
    and pages: "1 \<le> num_pages e"
    and moved: "cursor \<noteq> start_page e"
  shows "cursor < start_page e \<and>
         compactMemory_loop (pre @ (k, e) # post) 0 st0
           = compactMemory_loop ((k, e) # post) cursor (snd (compactMemory_loop pre 0 st0)) \<and>
         readFromPages (cache (snd (compactMemory_loop [(k, e)] cursor
                                       (snd (compactMemory_loop pre 0 st0)))))
             cursor (data_size e)
           = readFromPages (cache (snd (compactMemory_loop pre 0 st0))) (start_page e) (data_size e)"
proof -
  let ?f = "\<lambda>p. start_page (snd p)"
  let ?es = "sort_key ?f (entries st)"
  let ?s1 = "snd (compactMemory_loop pre 0 st0)"
  from ok have keys: "distinct (map fst (entries st))"
    and arena: "\<forall>p \<in> set (entries st). start_page (snd p) + num_pages (snd p) \<le> TOTAL_PAGES \<and>
                     data_size (snd p) \<le> num_pages (snd p) * PAGE_SIZE"
    and dj: "\<forall>p \<in> set (entries st). \<forall>q \<in> set (entries st).
        p \<noteq> q \<longrightarrow> 1 \<le> num_pages (snd p) \<longrightarrow> 1 \<le> num_pages (snd q) \<longrightarrow>
        runs_disjoint (snd p) (snd q)"
    by (simp_all add: live_entries_placed_def)
  have set_es: "set ?es = set (entries st)" by simp
  have mem_e: "(k, e) \<in> set (entries st)" and sub: "set pre \<subseteq> set (entries st)"
    using set_es unfolding at by auto
  from keys have "distinct (entries st)" by (simp add: distinct_map)
  then have "distinct ?es" by simp
  then have dist_pre: "distinct pre" and fresh: "(k, e) \<notin> set pre"
    unfolding at by simp_all
  have "sorted (map ?f ?es)" by (rule sorted_sort_key)
  then have sorted_pre: "sorted (map ?f pre)"
    and before: "\<forall>p \<in> set pre. start_page (snd p) \<le> start_page e"
    unfolding at by (auto simp: sorted_append)
  have dj_pre: "\<forall>p \<in> set pre. \<forall>q \<in> set pre.
        p \<noteq> q \<longrightarrow> 1 \<le> num_pages (snd p) \<longrightarrow> 1 \<le> num_pages (snd q) \<longrightarrow>
        runs_disjoint (snd p) (snd q)"
    using dj sub by blast
  have below: "\<forall>p \<in> set pre. 1 \<le> num_pages (snd p) \<longrightarrow>
        start_page (snd p) + num_pages (snd p) \<le> start_page e"
  proof (intro ballI impI)
    fix p assume p: "p \<in> set pre" and p1: "1 \<le> num_pages (snd p)"
    with fresh have "p \<noteq> (k, e)" by auto
    moreover from p sub have "p \<in> set (entries st)" by auto
    ultimately have "runs_disjoint (snd p) e" using dj mem_e p1 pages by fastforce
    moreover from before p have "start_page (snd p) \<le> start_page e" by simp
    ultimately show "start_page (snd p) + num_pages (snd p) \<le> start_page e"
      using pages by (auto simp: runs_disjoint_def)
  qed
  from live_pages_below[OF sorted_pre dist_pre dj_pre below]
  have lp: "live_pages pre \<le> start_page e" .
  from arena mem_e have top: "start_page e + num_pages e \<le> TOTAL_PAGES"
    and fits: "data_size e \<le> num_pages e * PAGE_SIZE" by auto
  from lp top have "0 + live_pages pre < 2 ^ 64" by (simp add: TOTAL_PAGES_eq)
  from compactMemory_loop_cursor[OF this] have c: "cursor = live_pages pre"
    by (simp add: cur)
  from lp c moved have lt: "cursor < start_page e" by simp
  have app: "compactMemory_loop (pre @ (k, e) # post) 0 st0
           = compactMemory_loop ((k, e) # post) cursor ?s1"
    by (simp only: compactMemory_loop_append cur)
  from lt top have "cursor + num_pages e < 2 ^ 64" by (simp add: TOTAL_PAGES_eq)
  from compactMemory_loop_copy[OF fits this]
  have copy: "readFromPages (cache (snd (compactMemory_loop [(k, e)] cursor ?s1)))
             cursor (data_size e)
           = readFromPages (cache ?s1) (start_page e) (data_size e)" .
  from lt app copy show ?thesis by blast
qed

theorem compactMemory_relocates_downwards_witness:
  "fst (compactMemory_loop [(''B'', entry_B)] 0
         (defragment_scenario\<lparr>free_list_head := [], total_free_pages := 0\<rparr>)) = 3 \<and>
   (3::nat) < start_page entry_D"
proof -
  have at: "sort_key (\<lambda>p. start_page (snd p)) (entries defragment_scenario)
              = [(''B'', entry_B)] @ (''D'', entry_D) # []"
    by (simp add: defragment_scenario_sorted)
  have cur: "3 = fst (compactMemory_loop [(''B'', entry_B)] 0
         (defragment_scenario\<lparr>free_list_head := [], total_free_pages := 0\<rparr>))"
    by (simp add: entry_B_def size_add_def Let_def)
  have pages: "1 \<le> num_pages entry_D" by (simp add: entry_D_def)
  have moved: "(3::nat) \<noteq> start_page entry_D" by (simp add: entry_D_def)
  from compactMemory_relocates_downwards[OF defragment_scenario_placed at refl cur pages moved] cur
  show ?thesis by simp
qed

text \<open>
  C5, as stated, fails for an entry of zero pages: in the update scenario the entry \<open>z\<close>
  starts at page 3, the cursor has reached page 5 when the loop comes to it, and \<open>z\<close> is
  relocated upwards, from page 3 to page 5.
\<close>

theorem zero_page_entry_relocated_upwards:
  "map_of (entries upward_scenario) ''z''
     = Some \<lparr>key = ''z'', client_id = ''c'', start_page = 3, num_pages = 0,
               data_size = 0, lru_iter = None, insertion_order = 1, visited = False,
               reference_bit = False, clock_position = 0\<rparr> \<and>
   fst (compactMemory_loop
          [(''x'', \<lparr>key = ''x'', client_id = ''c'', start_page = 0, num_pages = 5,
               data_size = 204800, lru_iter = None, insertion_order = 2, visited = False,
               reference_bit = False, clock_position = 0\<rparr>)] 0
          (upward_scenario\<lparr>free_list_head := [], total_free_pages := 0\<rparr>)) = 5 \<and>
   map_of (entries (compactMemory upward_scenario)) ''z''
     = Some \<lparr>key = ''z'', client_id = ''c'', start_page = 5, num_pages = 0,
               data_size = 0, lru_iter = None, insertion_order = 1, visited = False,
               reference_bit = False, clock_position = 0\<rparr> \<and>
   live_entries_placed (entries upward_scenario)"
proof -
  have a: "map_of (entries upward_scenario) ''z''
     = Some \<lparr>key = ''z'', client_id = ''c'', start_page = 3, num_pages = 0,
               data_size = 0, lru_iter = None, insertion_order = 1, visited = False,
               reference_bit = False, clock_position = 0\<rparr>"
    by (simp add: upward_scenario_fields)
  have b: "fst (compactMemory_loop
          [(''x'', \<lparr>key = ''x'', client_id = ''c'', start_page = 0, num_pages = 5,
               data_size = 204800, lru_iter = None, insertion_order = 2, visited = False,
               reference_bit = False, clock_position = 0\<rparr>)] 0
          (upward_scenario\<lparr>free_list_head := [], total_free_pages := 0\<rparr>)) = 5"
    by (simp add: size_add_def Let_def)
  have c: "map_of (entries (compactMemory upward_scenario)) ''z''
     = Some \<lparr>key = ''z'', client_id = ''c'', start_page = 5, num_pages = 0,
               data_size = 0, lru_iter = None, insertion_order = 1, visited = False,
               reference_bit = False, clock_position = 0\<rparr>"
    by (simp add: compactMemory_def upward_scenario_fields size_add_def TOTAL_PAGES_eq Let_def)
  have d: "live_entries_placed (entries upward_scenario)"
    by (simp add: live_entries_placed_def upward_scenario_fields runs_disjoint_def
          TOTAL_PAGES_eq PAGE_SIZE_def)
  from a b c d show ?thesis by blast
qed

section \<open>Compaction keeps the entries and their bytes\<close>

text \<open>
  C2. In a state whose live entries are as the data model has them, after \<open>defragment\<close>
  the table has the same keys; every entry is the entry it was but for its start page,
  and the \<open>data_size\<close> bytes read at its new start page are those that were read at its
  old one; the free list is the single extent from the end of the live pages to the end
  of the arena, or empty when the live pages fill the arena; and in ascending order of
  their old start pages the entries lie one behind the other from page zero.
\<close>

theorem defragment_preserves_entries:
  assumes ok: "live_entries_ok (entries st)"
  shows "map fst (entries (snd (defragment st n))) = map fst (entries st) \<and>
         (\<forall>k e. map_of (entries st) k = Some e \<longrightarrow>
            (\<exists>e'. map_of (entries (snd (defragment st n))) k = Some e' \<and>
                  e' = e\<lparr>start_page := start_page e'\<rparr> \<and>
                  readFromPages (cache (snd (defragment st n))) (start_page e') (data_size e')
                    = readFromPages (cache st) (start_page e) (data_size e))) \<and>
         free_list_head (snd (defragment st n))
           = (if live_pages (entries st) < TOTAL_PAGES
              then [\<lparr>FreeBlock.start_page = live_pages (entries st),
                     num_pages = TOTAL_PAGES - live_pages (entries st)\<rparr>]
              else []) \<and>
         (\<forall>i < length (entries st).
            map_of (entries (snd (defragment st n)))
                (fst (sort_key (\<lambda>p. start_page (snd p)) (entries st) ! i))
              = Some ((snd (sort_key (\<lambda>p. start_page (snd p)) (entries st) ! i))
                  \<lparr>start_page :=
                     live_pages (take i (sort_key (\<lambda>p. start_page (snd p)) (entries st)))\<rparr>))"
proof -
  let ?st1 = "st\<lparr>stats := (stats st)\<lparr>defragmentations :=
                    (defragmentations (stats st) + 1) mod 2 ^ 64\<rparr>\<rparr>"
  have snd_eq: "snd (defragment st n) = compactMemory ?st1"
    by (simp add: defragment_def Let_def)
  have ok1: "live_entries_ok (entries ?st1)" using ok by simp
  from compactMemory_packs[OF ok1] show ?thesis
    unfolding snd_eq by simp
qed

theorem defragment_preserves_entries_witness:
  "map_of (entries (snd (defragment defragment_scenario 6))) ''B''
     = Some (entry_B\<lparr>start_page := 0\<rparr>) \<and>
   map_of (entries (snd (defragment defragment_scenario 6))) ''D''
     = Some (entry_D\<lparr>start_page := 3\<rparr>) \<and>
   readFromPages (cache (snd (defragment defragment_scenario 6))) 0 (data_size entry_B)
     = readFromPages (cache defragment_scenario) 4 (data_size entry_B) \<and>
   free_list_head (snd (defragment defragment_scenario 6))
     = [\<lparr>FreeBlock.start_page = 2553, num_pages = 7\<rparr>]"
proof -
  note t = defragment_preserves_entries[OF defragment_scenario_ok, of 6]
  have lp: "live_pages (entries defragment_scenario) = 2553"
    by (simp add: defragment_scenario_def entry_B_def entry_D_def)
  have len: "length (entries defragment_scenario) = 2"
    by (simp add: defragment_scenario_def)
  from t have each: "\<forall>i < length (entries defragment_scenario).
            map_of (entries (snd (defragment defragment_scenario 6)))
                (fst (sort_key (\<lambda>p. start_page (snd p)) (entries defragment_scenario) ! i))
              = Some ((snd (sort_key (\<lambda>p. start_page (snd p)) (entries defragment_scenario) ! i))
                  \<lparr>start_page :=
                     live_pages (take i (sort_key (\<lambda>p. start_page (snd p)) (entries defragment_scenario)))\<rparr>)"
    by blast
  from each[rule_format, of 0] have b: "map_of (entries (snd (defragment defragment_scenario 6))) ''B''
     = Some (entry_B\<lparr>start_page := 0\<rparr>)"
    by (simp add: len defragment_scenario_sorted)
  from each[rule_format, of 1] have d: "map_of (entries (snd (defragment defragment_scenario 6))) ''D''
     = Some (entry_D\<lparr>start_page := 3\<rparr>)"
    by (simp add: len defragment_scenario_sorted entry_B_def)
  have atB: "map_of (entries defragment_scenario) ''B'' = Some entry_B"
    by (simp add: defragment_scenario_def)
  from t atB obtain e' where e': "map_of (entries (snd (defragment defragment_scenario 6))) ''B'' = Some e'"
      "readFromPages (cache (snd (defragment defragment_scenario 6))) (start_page e') (data_size e')
         = readFromPages (cache defragment_scenario) (start_page entry_B) (data_size entry_B)"
    by blast
  from e'(1) b have "e' = entry_B\<lparr>start_page := 0\<rparr>" by simp
  with e'(2) have r: "readFromPages (cache (snd (defragment defragment_scenario 6))) 0 (data_size entry_B)
     = readFromPages (cache defragment_scenario) 4 (data_size entry_B)"
    by (simp add: entry_B_def)
  from t have f: "free_list_head (snd (defragment defragment_scenario 6))
     = [\<lparr>FreeBlock.start_page = 2553, num_pages = 7\<rparr>]"
    by (simp add: lp TOTAL_PAGES_eq)
  from b d r f show ?thesis by blast
qed

end
